theory Spec2Isabelle
  imports Main "HOL-Library.Sublist"
begin

section \<open>The event queue (src/queue.ts)\<close>

text \<open>
  The class \<^verbatim>\<open>Queue\<close> keeps its items in a \<^verbatim>\<open>Map<number, TItem>\<close> and two cursors.
  The cursors only ever hold integers between 0 and \<^verbatim>\<open>Number.MAX_SAFE_INTEGER\<close>, on
  which the JavaScript \<^verbatim>\<open>value + 1\<close> is exact, so they are natural numbers here.
  A missing key of the \<^verbatim>\<open>Map\<close> reads as \<^verbatim>\<open>undefined\<close>, which is \<open>None\<close>.
\<close>

definition MAX_SAFE_INTEGER :: nat where
  "MAX_SAFE_INTEGER = 9007199254740991"

record 'a Queue =
  data :: "nat \<rightharpoonup> 'a"
  head :: nat
  tail :: nat

definition new_Queue :: "'a Queue" where
  "new_Queue = \<lparr>data = Map.empty, head = 0, tail = 0\<rparr>"

definition isEmpty :: "'a Queue \<Rightarrow> bool" where
  "isEmpty q = (head q = tail q)"

definition advance :: "nat \<Rightarrow> nat" where
  "advance v = (if v = MAX_SAFE_INTEGER then 0 else v + 1)"

definition push :: "'a \<Rightarrow> 'a Queue \<Rightarrow> 'a Queue" where
  "push item q = q\<lparr>data := (data q)(tail q \<mapsto> item), tail := advance (tail q)\<rparr>"

text \<open>\<^verbatim>\<open>pop\<close> returns what \<^verbatim>\<open>data.get(head)\<close> gave (\<open>None\<close> for \<^verbatim>\<open>undefined\<close>)
  and moves the head cursor whether or not an item was there.\<close>

definition pop :: "'a Queue \<Rightarrow> 'a option \<times> 'a Queue" where
  "pop q = (data q (head q),
            q\<lparr>data := (data q)(head q := None), head := advance (head q)\<rparr>)"

subsection \<open>The queue read as a list\<close>

text \<open>The number of cursor steps from head to tail, and the cursor positions on the way.\<close>

definition size_q :: "'a Queue \<Rightarrow> nat" where
  "size_q q = (if head q \<le> tail q then tail q - head q
               else tail q + (MAX_SAFE_INTEGER + 1) - head q)"

fun cells :: "nat \<Rightarrow> nat \<Rightarrow> nat list" where
  "cells h 0 = []"
| "cells h (Suc n) = h # cells (advance h) n"

definition items :: "'a Queue \<Rightarrow> 'a option list" where
  "items q = map (data q) (cells (head q) (size_q q))"

definition queue_inv :: "'a Queue \<Rightarrow> bool" where
  "queue_inv q \<longleftrightarrow>
     head q \<le> MAX_SAFE_INTEGER \<and> tail q \<le> MAX_SAFE_INTEGER \<and>
     dom (data q) = set (cells (head q) (size_q q))"



section \<open>The generator \<^verbatim>\<open>busboy\<close> (the variant with the allow-list and the teardown)\<close>

subsection \<open>Values, events and the external objects\<close>

text \<open>
  JavaScript values as far as the generator looks at them: option values of the
  configuration, the array of allowed names, and error values (typed \<^verbatim>\<open>unknown\<close>).
  A file stream is an object of the producer; it is known here by its identity.
\<close>

datatype jsval =
    VUndefined
  | VBool bool
  | VNum int
  | VStr string
  | VStrs "string list"
  | VObj "(string \<times> jsval) list"

type_synonym stream_id = nat
type_synonym addr = nat
type_synonym obj = "string \<rightharpoonup> jsval"

record Info =
  encoding :: string
  mimeType :: string

record FileInfo = Info +
  filename :: string

record FieldInfo = Info +
  nameTruncated :: bool
  valueTruncated :: bool

datatype Event =
    FieldEvent string string FieldInfo
  | FieldsLimitEvent
  | FileEvent string stream_id FileInfo
  | FilesLimitEvent
  | PartsLimitEvent

datatype InternalEvent =
    Ev Event
  | CloseInternalEvent
  | ErrorInternalEvent jsval

text \<open>What the producer emits (\<^verbatim>\<open>BusboyEvents\<close>), with the name it is emitted under.\<close>

datatype BusboyEmit =
    EmitClose
  | EmitError jsval
  | EmitField string string FieldInfo
  | EmitFieldsLimit
  | EmitFile string stream_id FileInfo
  | EmitFilesLimit
  | EmitPartsLimit

fun emit_name :: "BusboyEmit \<Rightarrow> string" where
  "emit_name EmitClose = ''close''"
| "emit_name (EmitError _) = ''error''"
| "emit_name (EmitField _ _ _) = ''field''"
| "emit_name EmitFieldsLimit = ''fieldsLimit''"
| "emit_name (EmitFile _ _ _) = ''file''"
| "emit_name EmitFilesLimit = ''filesLimit''"
| "emit_name EmitPartsLimit = ''partsLimit''"

text \<open>The calls the generator makes on the source, the producer and the file streams.\<close>

datatype call =
    BusboyCreate
  | BusboyOn string
  | SourcePipe
  | SourceUnpipe
  | SourceResume
  | BusboyOff string
  | StreamOnceError stream_id
  | StreamResume stream_id
  | StreamDestroy stream_id
  | BusboyOnceError
  | BusboyEnd
  | BusboyDestroy

text \<open>
  The external objects are not part of the repository. The environment says which of
  the calls raise (and what), and what the properties read by the teardown report when
  it reads them: \<^verbatim>\<open>source.readable\<close>, \<^verbatim>\<open>busboy.destroyed\<close>, \<^verbatim>\<open>stream.closed\<close>,
  \<^verbatim>\<open>stream.destroyed\<close>; \<^verbatim>\<open>source.headers\<close> is read when the producer is created.
\<close>

record env =
  throws :: "call \<Rightarrow> jsval option"
  source_headers :: jsval
  source_readable :: bool
  busboy_destroyed :: bool
  stream_closed :: "stream_id \<Rightarrow> bool"
  stream_destroyed :: "stream_id \<Rightarrow> bool"

subsection \<open>The state of one generator\<close>

text \<open>
  Where the generator is suspended: before its body has started, at a \<^verbatim>\<open>yield\<close>, or
  at \<^verbatim>\<open>await waiter\<close> on a given wait handle; or it has completed. Wait handles
  (promises) are numbered in the order they are created; \<open>resolved\<close> holds the handles
  whose resolver has been called.
\<close>

datatype gstatus = SuspendedStart | SuspendedYield | Awaiting nat | Completed

record gen =
  status :: gstatus
  config :: "addr option"
  heap :: "addr \<Rightarrow> obj"
  queue :: "InternalEvent Queue"
  resolver :: "nat option"
  waiter :: nat
  promises :: nat
  resolved :: "nat set"
  allowedFileNames :: "string list"
  producer_config :: "obj option"
  attached :: "string list"
  yieldedFileStreams :: "stream_id list"
  calls :: "call list"

text \<open>What a request of the consumer comes back with; \<open>Pending\<close>: not settled yet, the
  generator is suspended on the wait handle.\<close>

datatype outcome = Yielded Event | Done | Thrown jsval | Pending

text \<open>
  Calling \<^verbatim>\<open>busboy(source, config)\<close> creates the generator object and runs none of the
  body. \<open>config\<close> is the reference the caller passed (or \<^verbatim>\<open>undefined\<close>), \<open>heap\<close> the
  store it points into, which the caller shares.
\<close>

definition busboy :: "addr option \<Rightarrow> (addr \<Rightarrow> obj) \<Rightarrow> gen" where
  "busboy cfg h =
     \<lparr>status = SuspendedStart, config = cfg, heap = h, queue = new_Queue,
      resolver = None, waiter = 0, promises = 0, resolved = {},
      allowedFileNames = [], producer_config = None, attached = [],
      yieldedFileStreams = [], calls = []\<rparr>"

subsection \<open>External calls\<close>

text \<open>\<^verbatim>\<open>on\<close> registers a listener and \<^verbatim>\<open>off\<close> removes it; a call that raises does neither.\<close>

fun effect :: "call \<Rightarrow> gen \<Rightarrow> gen" where
  "effect (BusboyOn n) s = s\<lparr>attached := attached s @ [n]\<rparr>"
| "effect (BusboyOff n) s = s\<lparr>attached := remove1 n (attached s)\<rparr>"
| "effect _ s = s"

definition ext :: "env \<Rightarrow> call \<Rightarrow> gen \<Rightarrow> jsval option \<times> gen" where
  "ext env c s =
     (let s' = s\<lparr>calls := calls s @ [c]\<rparr>
      in case throws env c of
           Some e \<Rightarrow> (Some e, s')
         | None \<Rightarrow> (None, effect c s'))"

text \<open>Statements in sequence: the first call that raises ends the sequence.\<close>

fun exts :: "env \<Rightarrow> call list \<Rightarrow> gen \<Rightarrow> jsval option \<times> gen" where
  "exts env [] s = (None, s)"
| "exts env (c # cs) s =
     (case ext env c s of
        (Some e, s') \<Rightarrow> (Some e, s')
      | (None, s') \<Rightarrow> exts env cs s')"

text \<open>\<^verbatim>\<open>try { ... } catch (_e) {}\<close>\<close>

definition swallow :: "jsval option \<times> gen \<Rightarrow> gen" where
  "swallow r = snd r"

definition listener_names :: "string list" where
  "listener_names =
     [''close'', ''error'', ''field'', ''fieldsLimit'', ''file'', ''filesLimit'', ''partsLimit'']"

subsection \<open>The wake gate and the listeners\<close>

text \<open>\<^verbatim>\<open>new Promise((resolve) => (resolver = resolve))\<close>, assigned to \<^verbatim>\<open>waiter\<close>.\<close>

definition new_waiter :: "gen \<Rightarrow> gen" where
  "new_waiter s =
     s\<lparr>resolver := Some (promises s), waiter := promises s, promises := Suc (promises s)\<rparr>"

definition notify :: "InternalEvent \<Rightarrow> gen \<Rightarrow> gen" where
  "notify event s =
     (let s1 = s\<lparr>queue := push event (queue s)\<rparr>
      in case resolver s1 of
           None \<Rightarrow> s1
         | Some p \<Rightarrow> new_waiter (s1\<lparr>resolved := insert p (resolved s1)\<rparr>))"

definition onClose :: "gen \<Rightarrow> gen" where
  "onClose s = notify CloseInternalEvent s"

definition onError :: "jsval \<Rightarrow> gen \<Rightarrow> gen" where
  "onError error s = notify (ErrorInternalEvent error) s"

definition onField :: "string \<Rightarrow> string \<Rightarrow> FieldInfo \<Rightarrow> gen \<Rightarrow> gen" where
  "onField name val info s = notify (Ev (FieldEvent name val info)) s"

definition onFieldsLimit :: "gen \<Rightarrow> gen" where
  "onFieldsLimit s = notify (Ev FieldsLimitEvent) s"

definition onFilesLimit :: "gen \<Rightarrow> gen" where
  "onFilesLimit s = notify (Ev FilesLimitEvent) s"

definition onPartsLimit :: "gen \<Rightarrow> gen" where
  "onPartsLimit s = notify (Ev PartsLimitEvent) s"

definition onFile :: "env \<Rightarrow> string \<Rightarrow> stream_id \<Rightarrow> FileInfo \<Rightarrow> gen \<Rightarrow> gen" where
  "onFile env name stream info s =
     (if length (allowedFileNames s) = 0 \<or> name \<in> set (allowedFileNames s)
      then notify (Ev (FileEvent name stream info)) s
      else snd (ext env (StreamResume stream) s))"

subsection \<open>The teardown (the \<^verbatim>\<open>finally\<close> block)\<close>

definition cleanup_stream :: "env \<Rightarrow> stream_id \<Rightarrow> gen \<Rightarrow> gen" where
  "cleanup_stream env stream s =
     swallow
       (if \<not> stream_closed env stream \<or> \<not> stream_destroyed env stream
        then exts env [StreamOnceError stream, StreamResume stream, StreamDestroy stream] s
        else (None, s))"

definition teardown :: "env \<Rightarrow> gen \<Rightarrow> jsval option \<times> gen" where
  "teardown env s =
     (let s1 = swallow (ext env SourceUnpipe s);
          s2 = swallow (if source_readable env then ext env SourceResume s1 else (None, s1))
      in case exts env (map BusboyOff listener_names) s2 of
           (Some e, s3) \<Rightarrow> (Some e, s3)
         | (None, s3) \<Rightarrow>
             (let s4 = fold (cleanup_stream env) (yieldedFileStreams s3) s3
              in if \<not> busboy_destroyed env
                 then exts env [BusboyOnceError, BusboyEnd, BusboyDestroy] s4
                 else (None, s4)))"

text \<open>
  Leaving the \<^verbatim>\<open>try\<close> block with the completion \<open>r\<close>: the teardown runs, and an
  exception that leaves the \<^verbatim>\<open>finally\<close> block replaces \<open>r\<close>.
\<close>

definition finish :: "env \<Rightarrow> outcome \<Rightarrow> gen \<Rightarrow> outcome \<times> gen" where
  "finish env r s =
     (case teardown env s of
        (Some e, s') \<Rightarrow> (Thrown e, s'\<lparr>status := Completed\<rparr>)
      | (None, s') \<Rightarrow> (r, s'\<lparr>status := Completed\<rparr>))"

subsection \<open>The loop, from one suspension to the next\<close>

text \<open>
  Every pass through \<^verbatim>\<open>while (true)\<close> ends the loop, yields, or awaits, so one pass is
  what runs between two suspensions. Reading \<^verbatim>\<open>event.type\<close> of an \<^verbatim>\<open>undefined\<close> event
  raises a TypeError.
\<close>

definition loop :: "env \<Rightarrow> gen \<Rightarrow> outcome \<times> gen" where
  "loop env s =
     (if \<not> isEmpty (queue s) then
        (case pop (queue s) of (event, q') \<Rightarrow>
          (let s' = s\<lparr>queue := q'\<rparr>
           in case event of
                None \<Rightarrow> finish env (Thrown (VStr ''TypeError'')) s'
              | Some CloseInternalEvent \<Rightarrow> finish env Done s'
              | Some (ErrorInternalEvent error) \<Rightarrow> finish env (Thrown error) s'
              | Some (Ev (FileEvent name stream info)) \<Rightarrow>
                  (Yielded (FileEvent name stream info),
                   s'\<lparr>yieldedFileStreams := yieldedFileStreams s' @ [stream],
                      status := SuspendedYield\<rparr>)
              | Some (Ev e) \<Rightarrow> (Yielded e, s'\<lparr>status := SuspendedYield\<rparr>)))
      else (Pending, s\<lparr>status := Awaiting (waiter s)\<rparr>))"

subsection \<open>The body up to the loop\<close>

text \<open>
  \<^verbatim>\<open>config?.allowedFileNames ?? []\<close>: the type admits an array of strings or
  \<^verbatim>\<open>undefined\<close>. \<^verbatim>\<open>delete config?.allowedFileNames\<close> removes the property from the
  object \<open>config\<close> refers to. The producer is created from the spread of that object with
  \<^verbatim>\<open>headers\<close> added; \<open>producer_config\<close> keeps the argument it is given.
\<close>

definition read_allowedFileNames :: "gen \<Rightarrow> string list" where
  "read_allowedFileNames s =
     (case config s of
        None \<Rightarrow> []
      | Some a \<Rightarrow> (case heap s a ''allowedFileNames'' of Some (VStrs ns) \<Rightarrow> ns | _ \<Rightarrow> []))"

definition delete_allowedFileNames :: "gen \<Rightarrow> gen" where
  "delete_allowedFileNames s =
     (case config s of
        None \<Rightarrow> s
      | Some a \<Rightarrow> s\<lparr>heap := (heap s)(a := (heap s a)(''allowedFileNames'' := None))\<rparr>)"

definition spread_config :: "env \<Rightarrow> gen \<Rightarrow> obj" where
  "spread_config env s =
     (case config s of None \<Rightarrow> Map.empty | Some a \<Rightarrow> heap s a)
       (''headers'' \<mapsto> source_headers env)"

definition prologue :: "env \<Rightarrow> gen \<Rightarrow> gen" where
  "prologue env s0 =
     (let s1 = new_waiter (s0\<lparr>queue := new_Queue, resolver := None\<rparr>);
          s2 = s1\<lparr>allowedFileNames := read_allowedFileNames s1\<rparr>;
          s3 = delete_allowedFileNames s2
      in s3\<lparr>producer_config := Some (spread_config env s3)\<rparr>)"

text \<open>An exception of \<^verbatim>\<open>busboyInternal\<close> is raised before the \<^verbatim>\<open>try\<close> block; one of
  \<^verbatim>\<open>busboy.on\<close> or \<^verbatim>\<open>source.pipe\<close> inside it, so the teardown runs.\<close>

definition start :: "env \<Rightarrow> gen \<Rightarrow> outcome \<times> gen" where
  "start env s0 =
     (case ext env BusboyCreate (prologue env s0) of
        (Some e, s5) \<Rightarrow> (Thrown e, s5\<lparr>status := Completed\<rparr>)
      | (None, s5) \<Rightarrow>
          (case exts env (map BusboyOn listener_names @ [SourcePipe])
                  (s5\<lparr>yieldedFileStreams := []\<rparr>) of
             (Some e, s6) \<Rightarrow> finish env (Thrown e) s6
           | (None, s6) \<Rightarrow> loop env s6))"

subsection \<open>Producer and consumer taking turns\<close>

text \<open>
  The consumer asks for the next event (\<open>Next\<close>) or abandons the iteration (\<open>Return\<close>);
  it has one request outstanding at a time, as \<^verbatim>\<open>for await\<close> has, and a request made
  while another is pending is \<open>Refused\<close>. \<open>Wake\<close> resumes the generator after
  \<^verbatim>\<open>await waiter\<close>, which can happen once the handle it awaits is resolved. \<open>Emit\<close> is the
  producer emitting an event: the listener registered under its name runs, if there is one.
  Each step is recorded with what it did.
\<close>

datatype action = Next | Return | Wake | Emit BusboyEmit

datatype obs =
    Result outcome
  | Notified InternalEvent
  | Skipped stream_id
  | NoListener
  | Refused

fun listener :: "env \<Rightarrow> BusboyEmit \<Rightarrow> gen \<Rightarrow> obs \<times> gen" where
  "listener env EmitClose s = (Notified CloseInternalEvent, onClose s)"
| "listener env (EmitError error) s = (Notified (ErrorInternalEvent error), onError error s)"
| "listener env (EmitField name val info) s =
     (Notified (Ev (FieldEvent name val info)), onField name val info s)"
| "listener env EmitFieldsLimit s = (Notified (Ev FieldsLimitEvent), onFieldsLimit s)"
| "listener env (EmitFile name stream info) s =
     (if length (allowedFileNames s) = 0 \<or> name \<in> set (allowedFileNames s)
      then Notified (Ev (FileEvent name stream info)) else Skipped stream,
      onFile env name stream info s)"
| "listener env EmitFilesLimit s = (Notified (Ev FilesLimitEvent), onFilesLimit s)"
| "listener env EmitPartsLimit s = (Notified (Ev PartsLimitEvent), onPartsLimit s)"

fun step :: "env \<Rightarrow> action \<Rightarrow> gen \<Rightarrow> obs \<times> gen" where
  "step env Next s =
     (case status s of
        SuspendedStart \<Rightarrow> (case start env s of (r, s') \<Rightarrow> (Result r, s'))
      | SuspendedYield \<Rightarrow> (case loop env s of (r, s') \<Rightarrow> (Result r, s'))
      | Awaiting p \<Rightarrow> (Refused, s)
      | Completed \<Rightarrow> (Result Done, s))"
| "step env Return s =
     (case status s of
        SuspendedStart \<Rightarrow> (Result Done, s\<lparr>status := Completed\<rparr>)
      | SuspendedYield \<Rightarrow> (case finish env Done s of (r, s') \<Rightarrow> (Result r, s'))
      | Awaiting p \<Rightarrow> (Refused, s)
      | Completed \<Rightarrow> (Result Done, s))"
| "step env Wake s =
     (case status s of
        Awaiting p \<Rightarrow>
          (if p \<in> resolved s then (case loop env s of (r, s') \<Rightarrow> (Result r, s'))
           else (Refused, s))
      | _ \<Rightarrow> (Refused, s))"
| "step env (Emit e) s =
     (if emit_name e \<in> set (attached s) then listener env e s else (NoListener, s))"

fun run :: "env \<Rightarrow> action list \<Rightarrow> gen \<Rightarrow> obs list \<times> gen" where
  "run env [] s = ([], s)"
| "run env (a # as) s =
     (case step env a s of (ob, s') \<Rightarrow>
        (case run env as s' of (obs, s'') \<Rightarrow> (ob # obs, s'')))"

text \<open>The events yielded to the consumer and the events enqueued, as a run records them.\<close>

fun yields :: "obs list \<Rightarrow> Event list" where
  "yields [] = []"
| "yields (Result (Yielded e) # obs) = e # yields obs"
| "yields (_ # obs) = yields obs"

fun enqueued :: "obs list \<Rightarrow> InternalEvent list" where
  "enqueued [] = []"
| "enqueued (Notified ev # obs) = ev # enqueued obs"
| "enqueued (_ # obs) = enqueued obs"


fun file_streams :: "Event list \<Rightarrow> stream_id list" where
  "file_streams [] = []"
| "file_streams (FileEvent name stream info # es) = stream # file_streams es"
| "file_streams (_ # es) = file_streams es"

section \<open>Notions used in the statements\<close>

text \<open>External calls leave the generator's own variables alone and only add to the
  log of calls (and to the registered listeners).\<close>

definition keeps :: "gen \<Rightarrow> gen \<Rightarrow> bool" where
  "keeps s s' \<longleftrightarrow>
     status s' = status s \<and> config s' = config s \<and> heap s' = heap s \<and>
     queue s' = queue s \<and> resolver s' = resolver s \<and> waiter s' = waiter s \<and>
     promises s' = promises s \<and> resolved s' = resolved s \<and>
     allowedFileNames s' = allowedFileNames s \<and> producer_config s' = producer_config s \<and>
     yieldedFileStreams s' = yieldedFileStreams s \<and> prefix (calls s) (calls s')"

text \<open>The options of the producer that the type \<^verbatim>\<open>Busboy.Config\<close> declares.\<close>

definition native_options :: "string list" where
  "native_options =
     [''highWaterMark'', ''fileHwm'', ''defCharset'', ''defParamCharset'', ''preservePath'',
      ''limits'']"

text \<open>An environment for examples: no call raises, the source is readable, and neither
  the producer nor any stream is closed or destroyed when the teardown looks.\<close>

definition quiet_env :: env where
  "quiet_env =
     \<lparr>throws = (\<lambda>c. None), source_headers = VUndefined, source_readable = True,
      busboy_destroyed = False, stream_closed = (\<lambda>x. False),
      stream_destroyed = (\<lambda>x. False)\<rparr>"

text \<open>A store for examples: the object at address 1 is
  \<^verbatim>\<open>{ defCharset: "latin1", allowedFileNames: ["image", "document"] }\<close>.\<close>

definition example_heap :: "addr \<Rightarrow> obj" where
  "example_heap =
     (\<lambda>a. Map.empty)
       (1 := [''defCharset'' \<mapsto> VStr ''latin1'',
              ''allowedFileNames'' \<mapsto> VStrs [''image'', ''document'']])"

text \<open>The generator is inside its loop: suspended at a \<^verbatim>\<open>yield\<close> or on the wait handle.\<close>

definition live :: "gen \<Rightarrow> bool" where
  "live s \<longleftrightarrow> status s = SuspendedYield \<or> (\<exists>p. status s = Awaiting p)"

text \<open>
  What holds of a generator after any run, given the events \<open>ys\<close> yielded and the events
  \<open>es\<close> enqueued so far. Inside the loop the queue holds exactly the enqueued events not
  yet yielded, in order; the resolver belongs to the newest wait handle, which is the only
  unresolved one; the recorded streams are those of the yielded file events; and a consumer
  that waits on the newest handle has been given everything that was enqueued.
\<close>

definition run_inv :: "Event list \<Rightarrow> InternalEvent list \<Rightarrow> gen \<Rightarrow> bool" where
  "run_inv ys es s \<longleftrightarrow>
     prefix (map Ev ys) es \<and>
     (status s = SuspendedStart \<longrightarrow>
        ys = [] \<and> es = [] \<and> attached s = [] \<and> promises s = 0 \<and> resolved s = {}) \<and>
     (live s \<longrightarrow>
        queue_inv (queue s) \<and> items (queue s) = map Some (drop (length ys) es) \<and>
        resolver s = Some (waiter s) \<and> resolved s = {..<waiter s} \<and>
        promises s = Suc (waiter s) \<and> yieldedFileStreams s = file_streams ys) \<and>
     (\<forall>p. status s = Awaiting p \<longrightarrow> p \<le> waiter s \<and> (p = waiter s \<longrightarrow> es = map Ev ys))"

text \<open>
  A run for examples. The consumer asks for the first event and is left waiting; the
  producer emits a field, a file named \<^verbatim>\<open>image\<close> (stream 7), a file named \<^verbatim>\<open>other\<close>
  (stream 8) and completes; the consumer is woken and asks three more times.
\<close>

definition example_field :: Event where
  "example_field =
     FieldEvent ''a'' ''1''
       \<lparr>encoding = ''7bit'', mimeType = ''text/plain'', nameTruncated = False,
        valueTruncated = False\<rparr>"

definition example_info :: FileInfo where
  "example_info = \<lparr>encoding = ''7bit'', mimeType = ''image/png'', filename = ''f.png''\<rparr>"

definition example_run :: "action list" where
  "example_run =
     [Next,
      Emit (EmitField ''a'' ''1''
        \<lparr>encoding = ''7bit'', mimeType = ''text/plain'', nameTruncated = False,
         valueTruncated = False\<rparr>),
      Emit (EmitFile ''image'' 7 example_info),
      Emit (EmitFile ''other'' 8 example_info),
      Emit EmitClose,
      Wake, Next, Next, Next]"

text \<open>A second run for examples: the consumer waits, then the producer reports an error
  and (incorrectly) emits a field after it.\<close>

definition example_error_run :: "action list" where
  "example_error_run =
     [Next,
      Emit (EmitError (VStr ''boom'')),
      Emit (EmitField ''a'' ''1''
        \<lparr>encoding = ''7bit'', mimeType = ''text/plain'', nameTruncated = False,
         valueTruncated = False\<rparr>)]"


text \<open>The wake gate between two calls of \<^verbatim>\<open>notify\<close>: the resolver belongs to the current
  wait handle, which is the newest one, and exactly the older handles are resolved.\<close>

definition gate_inv :: "gen \<Rightarrow> bool" where
  "gate_inv s \<longleftrightarrow>
     resolver s = Some (waiter s) \<and> resolved s = {..<waiter s} \<and> promises s = Suc (waiter s)"

text \<open>A fourth run for examples: the consumer waits, the producer emits three files
  (streams 7, 8 and 9), the consumer is woken, is yielded the first and abandons the
  iteration.\<close>

definition example_abandon_run :: "action list" where
  "example_abandon_run =
     [Next,
      Emit (EmitFile ''image'' 7 example_info),
      Emit (EmitFile ''image'' 8 example_info),
      Emit (EmitFile ''document'' 9 example_info),
      Wake, Return]"

text \<open>An environment in which removing the \<^verbatim>\<open>close\<close> listener raises, and a run in which
  the producer reports an error after a file has been yielded.\<close>

definition off_raises_env :: env where
  "off_raises_env =
     quiet_env\<lparr>throws :=
       (\<lambda>c. if c = BusboyOff ''close'' then Some (VStr ''off failed'') else None)\<rparr>"

definition example_file_error_run :: "action list" where
  "example_file_error_run =
     [Next,
      Emit (EmitFile ''image'' 7 example_info),
      Wake,
      Emit (EmitError (VStr ''boom'')),
      Next]"

text \<open>An environment in which the calls the teardown makes inside a \<^verbatim>\<open>try\<close> block raise:
  unpiping and resuming the source, and resuming any stream.\<close>

definition caught_raise_env :: env where
  "caught_raise_env =
     quiet_env\<lparr>throws :=
       (\<lambda>c. case c of
               SourceUnpipe \<Rightarrow> Some (VStr ''unpipe failed'')
             | SourceResume \<Rightarrow> Some (VStr ''resume failed'')
             | StreamResume x \<Rightarrow> Some (VStr ''stream failed'')
             | _ \<Rightarrow> None)\<rparr>"

text \<open>
  What running a list of calls one after the other comes to, read off the environment:
  the exception of the first call that raises, if one does, and the calls that are made,
  which are those up to and including the first that raises.
\<close>

fun first_raise :: "env \<Rightarrow> call list \<Rightarrow> jsval option" where
  "first_raise env [] = None"
| "first_raise env (c # cs) =
     (case throws env c of Some e \<Rightarrow> Some e | None \<Rightarrow> first_raise env cs)"

fun attempted :: "env \<Rightarrow> call list \<Rightarrow> call list" where
  "attempted env [] = []"
| "attempted env (c # cs) =
     c # (case throws env c of Some e \<Rightarrow> [] | None \<Rightarrow> attempted env cs)"

text \<open>The steps of the teardown that stand outside any \<^verbatim>\<open>try\<close> block, in order:
  removing the seven listeners and, if the producer is not destroyed, \<^verbatim>\<open>once\<close>, \<^verbatim>\<open>end\<close>
  and \<^verbatim>\<open>destroy\<close> on it.\<close>

definition unwrapped_steps :: "env \<Rightarrow> call list" where
  "unwrapped_steps env =
     map BusboyOff listener_names @
     (if busboy_destroyed env then [] else [BusboyOnceError, BusboyEnd, BusboyDestroy])"

text \<open>The calls a teardown makes on one recorded stream, and all the calls of a teardown
  that finds the streams \<open>xs\<close> recorded.\<close>

definition stream_calls :: "env \<Rightarrow> stream_id \<Rightarrow> call list" where
  "stream_calls env x =
     (if \<not> stream_closed env x \<or> \<not> stream_destroyed env x
      then attempted env [StreamOnceError x, StreamResume x, StreamDestroy x]
      else [])"

definition teardown_calls :: "env \<Rightarrow> stream_id list \<Rightarrow> call list" where
  "teardown_calls env xs =
     SourceUnpipe # (if source_readable env then [SourceResume] else []) @
     attempted env (map BusboyOff listener_names) @
     (case first_raise env (map BusboyOff listener_names) of
        Some e \<Rightarrow> []
      | None \<Rightarrow>
          concat (map (stream_calls env) xs) @
          (if busboy_destroyed env then []
           else attempted env [BusboyOnceError, BusboyEnd, BusboyDestroy]))"

text \<open>Whether a run of a new generator starts its body: the first request of the
  consumer decides, \<open>Next\<close> starts it and \<open>Return\<close> completes the generator without.\<close>

fun body_started :: "action list \<Rightarrow> bool" where
  "body_started [] = False"
| "body_started (Next # acts) = True"
| "body_started (Return # acts) = False"
| "body_started (a # acts) = body_started acts"

text \<open>An environment in which \<^verbatim>\<open>end\<close> on the producer raises.\<close>

definition end_raises_env :: env where
  "end_raises_env =
     quiet_env\<lparr>throws := (\<lambda>c. if c = BusboyEnd then Some (VStr ''end failed'') else None)\<rparr>"

section \<open>Facts about the queue\<close>

lemma advance_mod:
  "v \<le> MAX_SAFE_INTEGER \<Longrightarrow> advance v = (v + 1) mod Suc MAX_SAFE_INTEGER"
  by (simp add: advance_def)

lemma advance_le: "v \<le> MAX_SAFE_INTEGER \<Longrightarrow> advance v \<le> MAX_SAFE_INTEGER"
  by (simp add: advance_def)

lemma cells_mod:
  "h \<le> MAX_SAFE_INTEGER \<Longrightarrow>
   cells h n = map (\<lambda>i. (h + i) mod Suc MAX_SAFE_INTEGER) [0..<n]"
proof (induction n arbitrary: h)
  case 0
  show ?case by simp
next
  case (Suc n)
  have a: "advance h \<le> MAX_SAFE_INTEGER" using Suc.prems by (rule advance_le)
  have "cells (advance h) n
        = map (\<lambda>i. (advance h + i) mod Suc MAX_SAFE_INTEGER) [0..<n]"
    using Suc.IH [OF a] .
  also have "\<dots> = map (\<lambda>i. (h + Suc i) mod Suc MAX_SAFE_INTEGER) [0..<n]"
    using Suc.prems by (simp add: advance_mod mod_add_left_eq)
  finally have step: "cells (advance h) n
        = map (\<lambda>i. (h + Suc i) mod Suc MAX_SAFE_INTEGER) [0..<n]" .
  have "[0..<Suc n] = 0 # map Suc [0..<n]"
    by (simp add: upt_conv_Cons map_Suc_upt del: upt_Suc)
  then have "map (\<lambda>i. (h + i) mod Suc MAX_SAFE_INTEGER) [0..<Suc n]
        = h mod Suc MAX_SAFE_INTEGER
          # map (\<lambda>i. (h + Suc i) mod Suc MAX_SAFE_INTEGER) [0..<n]"
    by (simp add: comp_def del: upt_Suc)
  then show ?case using step Suc.prems by simp
qed

lemma cells_snoc:
  "h \<le> MAX_SAFE_INTEGER \<Longrightarrow>
   cells h (Suc n) = cells h n @ [(h + n) mod Suc MAX_SAFE_INTEGER]"
  by (simp add: cells_mod del: cells.simps)

lemma tail_position:
  assumes "head q \<le> MAX_SAFE_INTEGER" "tail q \<le> MAX_SAFE_INTEGER"
  shows "(head q + size_q q) mod Suc MAX_SAFE_INTEGER = tail q"
proof (cases "head q \<le> tail q")
  case True
  then show ?thesis using assms by (simp add: size_q_def)
next
  case False
  then have "head q + size_q q = tail q + Suc MAX_SAFE_INTEGER"
    using assms by (simp add: size_q_def)
  then have "(head q + size_q q) mod Suc MAX_SAFE_INTEGER = tail q mod Suc MAX_SAFE_INTEGER"
    by (simp only: mod_add_self2)
  then show ?thesis using assms by simp
qed

lemma size_q_le:
  "head q \<le> MAX_SAFE_INTEGER \<Longrightarrow> tail q \<le> MAX_SAFE_INTEGER \<Longrightarrow> size_q q \<le> MAX_SAFE_INTEGER"
  by (auto simp: size_q_def)

lemma cell_not_later:
  assumes "i < n" "n \<le> MAX_SAFE_INTEGER"
  shows "(h + i) mod Suc MAX_SAFE_INTEGER \<noteq> (h + n) mod Suc MAX_SAFE_INTEGER"
proof
  assume eq: "(h + i) mod Suc MAX_SAFE_INTEGER = (h + n) mod Suc MAX_SAFE_INTEGER"
  have "h + i \<le> h + n" using assms by simp
  from mod_eq_dvd_iff_nat [OF this] eq
  have "Suc MAX_SAFE_INTEGER dvd (n - i)" by (simp add: eq_commute)
  moreover have "0 < n - i" "n - i < MAX_SAFE_INTEGER + 1" using assms by auto
  ultimately show False by (auto dest: dvd_imp_le)
qed

lemma tail_not_in_cells:
  assumes "head q \<le> MAX_SAFE_INTEGER" "tail q \<le> MAX_SAFE_INTEGER"
  shows "tail q \<notin> set (cells (head q) (size_q q))"
proof -
  have "size_q q \<le> MAX_SAFE_INTEGER" using assms by (rule size_q_le)
  then have "\<forall>i < size_q q. (head q + i) mod Suc MAX_SAFE_INTEGER \<noteq> tail q"
    using cell_not_later [of _ "size_q q" "head q"] tail_position [OF assms] by auto
  then show ?thesis using assms(1) by (auto simp: cells_mod)
qed

lemma size_q_push:
  assumes "head q \<le> MAX_SAFE_INTEGER" "tail q \<le> MAX_SAFE_INTEGER" "size_q q < MAX_SAFE_INTEGER"
  shows "size_q (push x q) = Suc (size_q q)"
  using assms by (auto simp: size_q_def push_def advance_def split: if_splits)

lemma size_q_pop:
  assumes "head q \<le> MAX_SAFE_INTEGER" "tail q \<le> MAX_SAFE_INTEGER" "\<not> isEmpty q"
  shows "size_q q = Suc (size_q (snd (pop q)))"
  using assms by (auto simp: size_q_def pop_def advance_def isEmpty_def split: if_splits)

lemma items_push:
  assumes "queue_inv q" "size_q q < MAX_SAFE_INTEGER"
  shows "items (push x q) = items q @ [Some x]"
proof -
  have h: "head q \<le> MAX_SAFE_INTEGER" and t: "tail q \<le> MAX_SAFE_INTEGER"
    using assms(1) by (simp_all add: queue_inv_def)
  have sz: "size_q (push x q) = Suc (size_q q)" using h t assms(2) by (rule size_q_push)
  have notin: "tail q \<notin> set (cells (head q) (size_q q))" using h t by (rule tail_not_in_cells)
  have "items (push x q)
        = map ((data q)(tail q \<mapsto> x)) (cells (head q) (Suc (size_q q)))"
    by (simp add: items_def sz del: cells.simps) (simp add: push_def)
  also have "\<dots> = map ((data q)(tail q \<mapsto> x)) (cells (head q) (size_q q)) @ [Some x]"
    using h by (simp add: cells_snoc tail_position [OF h t] del: cells.simps)
  also have "map ((data q)(tail q \<mapsto> x)) (cells (head q) (size_q q))
        = map (data q) (cells (head q) (size_q q))"
    using notin by (auto intro: map_cong)
  finally show ?thesis by (simp add: items_def)
qed

lemma queue_inv_push:
  assumes "queue_inv q" "size_q q < MAX_SAFE_INTEGER"
  shows "queue_inv (push x q)"
proof -
  have h: "head q \<le> MAX_SAFE_INTEGER" and t: "tail q \<le> MAX_SAFE_INTEGER"
    and d: "dom (data q) = set (cells (head q) (size_q q))"
    using assms(1) by (simp_all add: queue_inv_def)
  have sz: "size_q (push x q) = Suc (size_q q)" using h t assms(2) by (rule size_q_push)
  have "dom (data (push x q)) = insert (tail q) (dom (data q))"
    by (simp add: push_def)
  moreover have "head (push x q) = head q" by (simp add: push_def)
  then have "set (cells (head (push x q)) (size_q (push x q)))
        = insert (tail q) (set (cells (head q) (size_q q)))"
    unfolding sz using h by (simp add: cells_snoc tail_position [OF h t] del: cells.simps)
  ultimately have "dom (data (push x q)) = set (cells (head (push x q)) (size_q (push x q)))"
    using d by simp
  moreover have "head (push x q) \<le> MAX_SAFE_INTEGER" using h by (simp add: push_def)
  moreover have "tail (push x q) \<le> MAX_SAFE_INTEGER" using t by (simp add: push_def advance_le)
  ultimately show ?thesis by (simp add: queue_inv_def)
qed

lemma head_not_in_rest:
  assumes "head q \<le> MAX_SAFE_INTEGER" "tail q \<le> MAX_SAFE_INTEGER" "\<not> isEmpty q"
  shows "head q \<notin> set (cells (advance (head q)) (size_q (snd (pop q))))"
proof -
  let ?n = "size_q (snd (pop q))"
  have sz: "size_q q = Suc ?n" using assms by (rule size_q_pop)
  have "size_q q \<le> MAX_SAFE_INTEGER" using assms(1,2) by (rule size_q_le)
  then have n: "?n < MAX_SAFE_INTEGER" using sz by simp
  have a: "advance (head q) \<le> MAX_SAFE_INTEGER" using assms(1) by (rule advance_le)
  have "\<forall>i < ?n. (head q + Suc i) mod Suc MAX_SAFE_INTEGER \<noteq> head q"
  proof (intro allI impI)
    fix i assume "i < ?n"
    then have "0 < Suc i" "Suc i \<le> MAX_SAFE_INTEGER" using n by auto
    from cell_not_later [OF this, of "head q"] assms(1)
    show "(head q + Suc i) mod Suc MAX_SAFE_INTEGER \<noteq> head q" by auto
  qed
  moreover have "\<And>i. (advance (head q) + i) mod Suc MAX_SAFE_INTEGER
        = (head q + Suc i) mod Suc MAX_SAFE_INTEGER"
    using assms(1) by (simp add: advance_mod mod_add_left_eq)
  ultimately show ?thesis using a by (auto simp: cells_mod)
qed

lemma items_pop:
  assumes "queue_inv q" "\<not> isEmpty q"
  shows "items q = fst (pop q) # items (snd (pop q))" and "fst (pop q) \<noteq> None"
    and "queue_inv (snd (pop q))"
proof -
  have h: "head q \<le> MAX_SAFE_INTEGER" and t: "tail q \<le> MAX_SAFE_INTEGER"
    and d: "dom (data q) = set (cells (head q) (size_q q))"
    using assms(1) by (simp_all add: queue_inv_def)
  let ?q' = "snd (pop q)"
  have sz: "size_q q = Suc (size_q ?q')" using h t assms(2) by (rule size_q_pop)
  have notin: "head q \<notin> set (cells (advance (head q)) (size_q ?q'))"
    using h t assms(2) by (rule head_not_in_rest)
  have hd': "head ?q' = advance (head q)" and dt': "data ?q' = (data q)(head q := None)"
    and tl': "tail ?q' = tail q"
    by (simp_all add: pop_def)
  have same: "map (data ?q') (cells (advance (head q)) (size_q ?q'))
        = map (data q) (cells (advance (head q)) (size_q ?q'))"
    using notin by (auto simp: dt' intro: map_cong)
  show "items q = fst (pop q) # items ?q'"
    unfolding items_def sz hd' same by (simp add: pop_def)
  have "head q \<in> dom (data q)" unfolding d sz by simp
  then show "fst (pop q) \<noteq> None" by (auto simp: pop_def)
  have "dom (data ?q') = dom (data q) - {head q}" by (auto simp: dt')
  also have "\<dots> = set (cells (advance (head q)) (size_q ?q'))"
    unfolding d sz using notin by auto
  finally have "dom (data ?q') = set (cells (head ?q') (size_q ?q'))" by (simp add: hd')
  then show "queue_inv ?q'" using h t by (simp add: queue_inv_def hd' tl' advance_le)
qed

lemma items_isEmpty:
  assumes "queue_inv q"
  shows "isEmpty q \<longleftrightarrow> items q = []"
proof -
  have "size_q q = 0 \<longleftrightarrow> head q = tail q"
    using assms by (auto simp: size_q_def queue_inv_def)
  moreover have "items q = [] \<longleftrightarrow> size_q q = 0"
    by (cases "size_q q") (simp_all add: items_def)
  ultimately show ?thesis by (simp add: isEmpty_def)
qed

lemma queue_inv_new: "queue_inv new_Queue" and items_new: "items new_Queue = []"
  by (simp_all add: queue_inv_def new_Queue_def size_q_def items_def)


lemma length_items: "length (items q) = size_q q"
proof -
  have "length (cells h n) = n" for h n by (induction n arbitrary: h) simp_all
  then show ?thesis by (simp add: items_def)
qed


section \<open>The claims about the queue\<close>

text \<open>
  C8. The cursors wrap at their largest value instead of running past it: advancing a
  cursor that equals \<^verbatim>\<open>Number.MAX_SAFE_INTEGER\<close> gives 0. On every queue whose cursors are
  in range and whose map holds exactly the cells between head and tail (wherever the
  cursors stand, also with the tail wrapped round below the head), \<^verbatim>\<open>push\<close> appends to
  the contents as long as fewer than \<^verbatim>\<open>MAX_SAFE_INTEGER\<close> items are held, \<^verbatim>\<open>pop\<close> on a
  non-empty queue returns and removes the oldest item, \<^verbatim>\<open>isEmpty\<close> holds exactly when
  nothing is held, and the queue stays of that kind.
\<close>

theorem queue_counters_wrap_safely:
  "advance MAX_SAFE_INTEGER = 0 \<and>
   (queue_inv q \<and> size_q q < MAX_SAFE_INTEGER \<longrightarrow>
      queue_inv (push x q) \<and> items (push x q) = items q @ [Some x]) \<and>
   (queue_inv q \<and> \<not> isEmpty q \<longrightarrow>
      fst (pop q) \<noteq> None \<and> items q = fst (pop q) # items (snd (pop q)) \<and>
      queue_inv (snd (pop q))) \<and>
   (queue_inv q \<longrightarrow> (isEmpty q \<longleftrightarrow> items q = []))"
proof (intro conjI impI)
  show "advance MAX_SAFE_INTEGER = 0" by (simp add: advance_def)
next
  assume "queue_inv q \<and> size_q q < MAX_SAFE_INTEGER"
  then show "queue_inv (push x q)" by (simp add: queue_inv_push)
next
  assume "queue_inv q \<and> size_q q < MAX_SAFE_INTEGER"
  then show "items (push x q) = items q @ [Some x]" by (simp add: items_push)
next
  assume "queue_inv q \<and> \<not> isEmpty q"
  then show "fst (pop q) \<noteq> None" using items_pop(2) [of q] by blast
next
  assume "queue_inv q \<and> \<not> isEmpty q"
  then show "items q = fst (pop q) # items (snd (pop q))" using items_pop(1) [of q] by blast
next
  assume "queue_inv q \<and> \<not> isEmpty q"
  then show "queue_inv (snd (pop q))" using items_pop(3) [of q] by blast
next
  assume "queue_inv q"
  then show "isEmpty q \<longleftrightarrow> items q = []" by (rule items_isEmpty)
qed

text \<open>The same at a queue whose tail has wrapped to 0 while its head is still at the
  largest cursor value.\<close>

theorem queue_counters_wrap_safely_witness:
  "queue_inv \<lparr>data = [MAX_SAFE_INTEGER \<mapsto> ''a''], head = MAX_SAFE_INTEGER, tail = 0\<rparr> \<and>
   size_q \<lparr>data = [MAX_SAFE_INTEGER \<mapsto> ''a''], head = MAX_SAFE_INTEGER, tail = 0\<rparr>
     < MAX_SAFE_INTEGER \<and>
   \<not> isEmpty \<lparr>data = [MAX_SAFE_INTEGER \<mapsto> ''a''], head = MAX_SAFE_INTEGER, tail = 0\<rparr> \<and>
   items (push ''b'' \<lparr>data = [MAX_SAFE_INTEGER \<mapsto> ''a''], head = MAX_SAFE_INTEGER, tail = 0\<rparr>)
     = [Some ''a'', Some ''b''] \<and>
   fst (pop \<lparr>data = [MAX_SAFE_INTEGER \<mapsto> ''a''], head = MAX_SAFE_INTEGER, tail = 0\<rparr>)
     = Some ''a'' \<and>
   head (snd (pop \<lparr>data = [MAX_SAFE_INTEGER \<mapsto> ''a''], head = MAX_SAFE_INTEGER, tail = 0\<rparr>))
     = 0 \<and>
   isEmpty (snd (pop \<lparr>data = [MAX_SAFE_INTEGER \<mapsto> ''a''], head = MAX_SAFE_INTEGER, tail = 0\<rparr>))"
proof -
  let ?q = "\<lparr>data = [MAX_SAFE_INTEGER \<mapsto> ''a''], head = MAX_SAFE_INTEGER, tail = 0\<rparr>"
  have big: "1 < MAX_SAFE_INTEGER" by (simp add: MAX_SAFE_INTEGER_def)
  have sz: "size_q ?q = 1" using big by (simp add: size_q_def)
  have inv: "queue_inv ?q" by (simp add: queue_inv_def sz)
  have its: "items ?q = [Some ''a'']" by (simp add: items_def sz)
  have ne: "\<not> isEmpty ?q" using big by (simp add: isEmpty_def)
  have lt: "size_q ?q < MAX_SAFE_INTEGER" using big by (simp add: sz)
  have a: "items (push ''b'' ?q) = items ?q @ [Some ''b'']"
    using queue_counters_wrap_safely [of ?q "''b''", THEN conjunct2, THEN conjunct1] inv lt
    by (simp only: simp_thms)
  have b: "fst (pop ?q) = Some ''a''" "head (snd (pop ?q)) = 0" "isEmpty (snd (pop ?q))"
    by (simp_all add: pop_def advance_def isEmpty_def)
  show ?thesis
    using inv lt ne a its b by simp
qed

section \<open>Facts about external calls and the teardown\<close>

lemma keeps_refl: "keeps s s"
  by (simp add: keeps_def)

lemma keeps_trans: "keeps s s' \<Longrightarrow> keeps s' s'' \<Longrightarrow> keeps s s''"
  by (auto simp: keeps_def)

lemma keeps_ext: "keeps s (snd (ext env c s))"
  by (cases c) (simp_all add: keeps_def ext_def Let_def split: option.splits)

lemma keeps_exts: "keeps s (snd (exts env cs s))"
proof (induction cs arbitrary: s)
  case Nil
  show ?case by (simp add: keeps_refl)
next
  case (Cons c cs)
  show ?case
  proof (cases "fst (ext env c s)")
    case None
    then have "snd (exts env (c # cs) s) = snd (exts env cs (snd (ext env c s)))"
      by (simp add: split_beta)
    then show ?thesis using keeps_trans [OF keeps_ext Cons.IH] by simp
  next
    case (Some e)
    then have "snd (exts env (c # cs) s) = snd (ext env c s)" by (simp add: split_beta)
    then show ?thesis using keeps_ext by simp
  qed
qed

lemma keeps_cleanup_stream: "keeps s (cleanup_stream env x s)"
  using keeps_exts [of s env]
  by (simp add: cleanup_stream_def swallow_def keeps_refl del: exts.simps)

lemma keeps_fold_cleanup: "keeps s (fold (cleanup_stream env) xs s)"
proof (induction xs arbitrary: s)
  case Nil
  show ?case by (simp add: keeps_refl)
next
  case (Cons x xs)
  show ?case using keeps_trans [OF keeps_cleanup_stream Cons.IH] by simp
qed

lemma keeps_teardown: "keeps s (snd (teardown env s))"
proof -
  let ?s1 = "swallow (ext env SourceUnpipe s)"
  let ?s2 = "swallow (if source_readable env then ext env SourceResume ?s1 else (None, ?s1))"
  let ?r3 = "exts env (map BusboyOff listener_names) ?s2"
  let ?s4 = "fold (cleanup_stream env) (yieldedFileStreams (snd ?r3)) (snd ?r3)"
  have k1: "keeps s ?s1" by (simp add: swallow_def keeps_ext)
  have "keeps ?s1 ?s2" by (simp add: swallow_def keeps_ext keeps_refl)
  then have k2: "keeps s ?s2" using k1 keeps_trans by blast
  have k3: "keeps s (snd ?r3)" using k2 keeps_exts keeps_trans by blast
  have k4: "keeps s ?s4" using k3 keeps_fold_cleanup keeps_trans by blast
  have k5: "keeps s (snd (exts env [BusboyOnceError, BusboyEnd, BusboyDestroy] ?s4))"
    using k4 keeps_exts keeps_trans by blast
  show ?thesis
  proof (cases "fst ?r3")
    case None
    then have "snd (teardown env s)
        = (if \<not> busboy_destroyed env
           then snd (exts env [BusboyOnceError, BusboyEnd, BusboyDestroy] ?s4) else ?s4)"
      unfolding teardown_def Let_def by (cases ?r3) simp
    then show ?thesis using k4 k5 by simp
  next
    case (Some e)
    then have "snd (teardown env s) = snd ?r3"
      unfolding teardown_def Let_def by (cases ?r3) simp
    then show ?thesis using k3 by simp
  qed
qed

lemma finish_fields:
  "status (snd (finish env r s)) = Completed"
  "keeps s ((snd (finish env r s))\<lparr>status := status s\<rparr>)"
proof -
  have eq: "snd (finish env r s) = (snd (teardown env s))\<lparr>status := Completed\<rparr>"
    by (simp add: finish_def split: prod.splits option.splits)
  show "status (snd (finish env r s)) = Completed" by (simp add: eq)
  show "keeps s ((snd (finish env r s))\<lparr>status := status s\<rparr>)"
    using keeps_teardown [of s env] by (simp add: eq keeps_def)
qed

section \<open>Facts about the loop and the start of the body\<close>

lemma keeps_finish: "keeps (s\<lparr>status := Completed\<rparr>) (snd (finish env r s))"
  using finish_fields [where env=env and r=r and s=s] by (simp add: keeps_def)

lemma loop_empty:
  "isEmpty (queue s) \<Longrightarrow> loop env s = (Pending, s\<lparr>status := Awaiting (waiter s)\<rparr>)"
  by (simp add: loop_def)

lemma loop_head:
  assumes "queue_inv (queue s)" "items (queue s) = Some ev # rest"
  shows "\<not> isEmpty (queue s)" and "fst (pop (queue s)) = Some ev"
    and "items (snd (pop (queue s))) = rest" and "queue_inv (snd (pop (queue s)))"
proof -
  show ne: "\<not> isEmpty (queue s)" using assms items_isEmpty [of "queue s"] by simp
  note p = items_pop [OF assms(1) ne]
  show "fst (pop (queue s)) = Some ev" using p(1) assms(2) by simp
  show "items (snd (pop (queue s))) = rest" using p(1) assms(2) by simp
  show "queue_inv (snd (pop (queue s)))" by (rule p(3))
qed

lemma loop_public:
  assumes "queue_inv (queue s)" "items (queue s) = Some (Ev e) # rest"
  shows "loop env s =
    (Yielded e,
     s\<lparr>status := SuspendedYield, queue := snd (pop (queue s)),
       yieldedFileStreams := yieldedFileStreams s @ file_streams [e]\<rparr>)"
  using loop_head(1,2) [OF assms]
  by (cases e) (simp_all add: loop_def split_beta)

lemma loop_close:
  assumes "queue_inv (queue s)" "items (queue s) = Some CloseInternalEvent # rest"
  shows "loop env s = finish env Done (s\<lparr>queue := snd (pop (queue s))\<rparr>)"
  using loop_head(1,2) [OF assms] by (simp add: loop_def split_beta)

lemma loop_error:
  assumes "queue_inv (queue s)" "items (queue s) = Some (ErrorInternalEvent e) # rest"
  shows "loop env s = finish env (Thrown e) (s\<lparr>queue := snd (pop (queue s))\<rparr>)"
  using loop_head(1,2) [OF assms] by (simp add: loop_def split_beta)

lemma prologue_fields:
  "status (prologue env s) = status s"
  "config (prologue env s) = config s"
  "heap (prologue env s) = heap (delete_allowedFileNames s)"
  "queue (prologue env s) = new_Queue"
  "resolver (prologue env s) = Some (promises s)"
  "waiter (prologue env s) = promises s"
  "promises (prologue env s) = Suc (promises s)"
  "resolved (prologue env s) = resolved s"
  "allowedFileNames (prologue env s) = read_allowedFileNames s"
  "producer_config (prologue env s) = Some (spread_config env (delete_allowedFileNames s))"
  "attached (prologue env s) = attached s"
  "calls (prologue env s) = calls s"
  by (simp_all add: prologue_def Let_def new_waiter_def delete_allowedFileNames_def
        read_allowedFileNames_def spread_config_def split: option.splits)

lemma start_shape:
  shows "keeps ((prologue env s)\<lparr>status := status (snd (start env s)),
            yieldedFileStreams := yieldedFileStreams (snd (start env s))\<rparr>)
         (snd (start env s))"
  and "(status (snd (start env s)) = Completed \<and> (\<exists>e. fst (start env s) = Thrown e)) \<or>
       (status (snd (start env s)) = Awaiting (promises s) \<and> fst (start env s) = Pending \<and>
        yieldedFileStreams (snd (start env s)) = [])"
proof -
  let ?p = "prologue env s"
  let ?r5 = "ext env BusboyCreate ?p"
  let ?s5 = "(snd ?r5)\<lparr>yieldedFileStreams := []\<rparr>"
  let ?r6 = "exts env (map BusboyOn listener_names @ [SourcePipe]) ?s5"
  have k5: "keeps ?p (snd ?r5)" by (rule keeps_ext)
  have k6: "keeps ?s5 (snd ?r6)" by (rule keeps_exts)
  have k56: "keeps (?p\<lparr>yieldedFileStreams := []\<rparr>) (snd ?r6)"
    using k5 k6 by (simp add: keeps_def) (metis prefix_order.trans)
  have q6: "isEmpty (queue (snd ?r6))"
    using k56 by (simp add: keeps_def prologue_fields isEmpty_def new_Queue_def)
  have w6: "waiter (snd ?r6) = promises s"
    using k56 by (simp add: keeps_def prologue_fields)
  consider (a) e where "fst ?r5 = Some e"
    | (b) e where "fst ?r5 = None" "fst ?r6 = Some e"
    | (c) "fst ?r5 = None" "fst ?r6 = None"
    by (cases "fst ?r5"; cases "fst ?r6") auto
  then have "keeps (?p\<lparr>status := status (snd (start env s)),
            yieldedFileStreams := yieldedFileStreams (snd (start env s))\<rparr>)
         (snd (start env s)) \<and>
       ((status (snd (start env s)) = Completed \<and> (\<exists>e. fst (start env s) = Thrown e)) \<or>
       (status (snd (start env s)) = Awaiting (promises s) \<and> fst (start env s) = Pending \<and>
        yieldedFileStreams (snd (start env s)) = []))"
  proof cases
    case a
    then have "start env s = (Thrown e, (snd ?r5)\<lparr>status := Completed\<rparr>)"
      unfolding start_def by (cases ?r5) simp
    then show ?thesis using k5 by (simp add: keeps_def)
  next
    case b
    then have eq: "start env s = finish env (Thrown e) (snd ?r6)"
      unfolding start_def by (cases ?r5; cases ?r6) simp
    have "fst (finish env (Thrown e) (snd ?r6)) = Thrown e \<or>
          (\<exists>e'. fst (finish env (Thrown e) (snd ?r6)) = Thrown e')"
      by (simp add: finish_def split: prod.splits option.splits)
    then have thr: "\<exists>e'. fst (start env s) = Thrown e'" using eq by auto
    have "keeps ((snd ?r6)\<lparr>status := Completed\<rparr>) (snd (start env s))"
      using keeps_finish [of "snd ?r6" env "Thrown e"] eq by simp
    moreover have "status (snd (start env s)) = Completed"
      using eq finish_fields(1) by simp
    ultimately show ?thesis using k56 thr
      by (simp add: keeps_def) (metis prefix_order.trans)
  next
    case c
    then have "start env s = loop env (snd ?r6)"
      unfolding start_def by (cases ?r5; cases ?r6) simp
    then have "start env s = (Pending, (snd ?r6)\<lparr>status := Awaiting (promises s)\<rparr>)"
      using q6 w6 by (simp add: loop_empty)
    then show ?thesis using k56 by (simp add: keeps_def)
  qed
  then show "keeps ((prologue env s)\<lparr>status := status (snd (start env s)),
            yieldedFileStreams := yieldedFileStreams (snd (start env s))\<rparr>)
         (snd (start env s))"
  and "(status (snd (start env s)) = Completed \<and> (\<exists>e. fst (start env s) = Thrown e)) \<or>
       (status (snd (start env s)) = Awaiting (promises s) \<and> fst (start env s) = Pending \<and>
        yieldedFileStreams (snd (start env s)) = [])" by blast+
qed

lemma start_heap: "heap (snd (start env s)) = heap (delete_allowedFileNames s)"
  using start_shape(1) [of env s] by (simp add: keeps_def prologue_fields)

lemma start_producer_config:
  "producer_config (snd (start env s)) = Some (spread_config env (delete_allowedFileNames s))"
  using start_shape(1) [of env s] by (simp add: keeps_def prologue_fields)

lemma notify_fields:
  "status (notify ev s) = status s" "heap (notify ev s) = heap s"
  "config (notify ev s) = config s" "attached (notify ev s) = attached s"
  "calls (notify ev s) = calls s" "yieldedFileStreams (notify ev s) = yieldedFileStreams s"
  "allowedFileNames (notify ev s) = allowedFileNames s"
  "producer_config (notify ev s) = producer_config s"
  "queue (notify ev s) = push ev (queue s)"
  by (simp_all add: notify_def Let_def new_waiter_def split: option.splits)

lemma listener_fields:
  "status (snd (listener env e s)) = status s" "heap (snd (listener env e s)) = heap s"
  "yieldedFileStreams (snd (listener env e s)) = yieldedFileStreams s"
  "prefix (calls s) (calls (snd (listener env e s)))"
  using keeps_ext [of s env]
  by (cases e; simp add: notify_fields onClose_def onError_def onField_def onFieldsLimit_def
        onFilesLimit_def onPartsLimit_def onFile_def keeps_def)+

lemma loop_fields:
  "heap (snd (loop env s)) = heap s" "status (snd (loop env s)) \<noteq> SuspendedStart"
proof -
  let ?s' = "s\<lparr>queue := snd (pop (queue s))\<rparr>"
  have fin: "heap (snd (finish env r ?s')) = heap s \<and> status (snd (finish env r ?s')) = Completed" for r
    using keeps_finish [of ?s' env r] by (simp add: keeps_def)
  show "heap (snd (loop env s)) = heap s"
    using fin by (simp add: loop_def split_beta Let_def
        split: option.splits InternalEvent.splits Event.splits)
  show "status (snd (loop env s)) \<noteq> SuspendedStart"
    using fin by (simp add: loop_def split_beta Let_def
        split: option.splits InternalEvent.splits Event.splits)
qed

lemma step_started:
  assumes "status s \<noteq> SuspendedStart"
  shows "heap (snd (step env a s)) = heap s" and "status (snd (step env a s)) \<noteq> SuspendedStart"
proof -
  have fin: "heap (snd (finish env r s)) = heap s \<and> status (snd (finish env r s)) = Completed" for r
    using keeps_finish [of s env r] by (simp add: keeps_def)
  show "heap (snd (step env a s)) = heap s"
    using assms fin loop_fields(1) [of env s]
    by (cases a; cases "status s") (simp_all add: split_beta listener_fields)
  show "status (snd (step env a s)) \<noteq> SuspendedStart"
    using assms fin loop_fields(2) [of env s]
    by (cases a; cases "status s") (simp_all add: split_beta listener_fields)
qed

lemma run_started:
  "status s \<noteq> SuspendedStart \<Longrightarrow> heap (snd (run env acts s)) = heap s"
proof (induction acts arbitrary: s)
  case Nil
  show ?case by simp
next
  case (Cons a acts)
  from Cons.IH [OF step_started(2) [OF Cons.prems]] step_started(1) [OF Cons.prems]
  show ?case by (simp add: split_beta)
qed

lemma start_status: "status (snd (start env s)) \<noteq> SuspendedStart"
  using start_shape(2) [of env s] by auto

section \<open>The claims about the configuration\<close>

text \<open>
  C9. When the body starts, the producer is created from a configuration that holds,
  for every option of the producer the caller's object contains
  (\<^verbatim>\<open>highWaterMark\<close>, \<^verbatim>\<open>fileHwm\<close>, \<^verbatim>\<open>defCharset\<close>, \<^verbatim>\<open>defParamCharset\<close>,
  \<^verbatim>\<open>preservePath\<close>, \<^verbatim>\<open>limits\<close>), the caller's value unchanged, and that has no
  \<^verbatim>\<open>allowedFileNames\<close> property.
\<close>

theorem config_forwarded_without_allowedFileNames:
  "producer_config (snd (start env s)) \<noteq> None \<and>
   (\<forall>fwd. producer_config (snd (start env s)) = Some fwd \<longrightarrow>
      fwd ''allowedFileNames'' = None \<and>
      (\<forall>k \<in> set native_options.
         fwd k = (case config s of None \<Rightarrow> None | Some a \<Rightarrow> heap s a k)))"
  by (simp add: start_producer_config spread_config_def delete_allowedFileNames_def
        native_options_def split: option.splits)

theorem config_forwarded_without_allowedFileNames_witness:
  "\<exists>fwd. producer_config (snd (start quiet_env (busboy (Some 1) example_heap))) = Some fwd \<and>
         fwd ''allowedFileNames'' = None \<and> fwd ''defCharset'' = Some (VStr ''latin1'') \<and>
         example_heap 1 ''allowedFileNames'' = Some (VStrs [''image'', ''document''])"
proof -
  let ?s = "busboy (Some 1) example_heap"
  note t = config_forwarded_without_allowedFileNames [of quiet_env ?s]
  from t obtain fwd where f: "producer_config (snd (start quiet_env ?s)) = Some fwd" by blast
  with t have "fwd ''allowedFileNames'' = None"
    and "\<forall>k \<in> set native_options.
           fwd k = (case config ?s of None \<Rightarrow> None | Some a \<Rightarrow> heap ?s a k)"
    by blast+
  then have "fwd ''allowedFileNames'' = None" and "fwd ''defCharset'' = Some (VStr ''latin1'')"
    by (simp_all add: native_options_def busboy_def example_heap_def)
  then show ?thesis using f by (simp add: example_heap_def)
qed


section \<open>What every run preserves\<close>

lemma file_streams_append: "file_streams (xs @ ys) = file_streams xs @ file_streams ys"
  by (induction xs rule: file_streams.induct) simp_all

lemma yields_Cons: "yields (ob # obs) = yields [ob] @ yields obs"
  by (cases "(ob # obs)" rule: yields.cases) simp_all

lemma enqueued_Cons: "enqueued (ob # obs) = enqueued [ob] @ enqueued obs"
  by (cases "(ob # obs)" rule: enqueued.cases) simp_all

lemma length_enqueued1: "length (enqueued [ob]) \<le> 1"
  by (cases "[ob]" rule: enqueued.cases) simp_all

lemma finish_result: "fst (finish env r s) = r \<or> (\<exists>e. fst (finish env r s) = Thrown e)"
  by (simp add: finish_def split: prod.splits option.splits)

lemma yields_finish:
  "r = Done \<or> (\<exists>e. r = Thrown e) \<Longrightarrow> yields [Result (fst (finish env r s))] = []"
  using finish_result [of env r s] by auto

lemma run_inv_Completed:
  "status s = Completed \<Longrightarrow> run_inv ys es s \<longleftrightarrow> prefix (map Ev ys) es"
  by (simp add: run_inv_def live_def)

lemma run_inv_keeps:
  assumes "run_inv ys es s" "keeps s s'" "status s \<noteq> SuspendedStart"
  shows "run_inv ys es s'"
  using assms by (simp add: run_inv_def keeps_def live_def)

lemma loop_run_inv:
  assumes inv: "run_inv ys es s" and lv: "live s"
  shows "run_inv (ys @ yields [Result (fst (loop env s))]) es (snd (loop env s))"
proof -
  define rest where "rest = drop (length ys) es"
  have es: "es = map Ev ys @ rest"
    using inv by (auto simp: run_inv_def rest_def prefix_def)
  have q: "queue_inv (queue s)" and its: "items (queue s) = map Some rest"
    and gate: "resolver s = Some (waiter s)" "resolved s = {..<waiter s}"
      "promises s = Suc (waiter s)"
    and yf: "yieldedFileStreams s = file_streams ys"
    using inv lv by (simp_all add: run_inv_def rest_def)
  show ?thesis
  proof (cases rest)
    case Nil
    then have "isEmpty (queue s)" using q its items_isEmpty [of "queue s"] by simp
    then have "loop env s = (Pending, s\<lparr>status := Awaiting (waiter s)\<rparr>)" by (rule loop_empty)
    then show ?thesis using es Nil q its gate yf by (simp add: run_inv_def live_def)
  next
    case (Cons ev rest')
    then have h: "items (queue s) = Some ev # map Some rest'" using its by simp
    note p = loop_head [OF q h]
    let ?s' = "s\<lparr>queue := snd (pop (queue s))\<rparr>"
    show ?thesis
    proof (cases ev)
      case (Ev e)
      have l: "loop env s = (Yielded e,
          s\<lparr>status := SuspendedYield, queue := snd (pop (queue s)),
            yieldedFileStreams := yieldedFileStreams s @ file_streams [e]\<rparr>)"
        using loop_public [OF q] h Ev by simp
      have "drop (length (ys @ [e])) es = rest'" using es Cons by simp
      moreover have "prefix (map Ev (ys @ [e])) es" using es Cons Ev by simp
      ultimately show ?thesis
        using l p(3,4) gate yf
        by (simp add: run_inv_def live_def file_streams_append)
    next
      case CloseInternalEvent
      then have l: "loop env s = finish env Done ?s'" using loop_close [OF q] h by simp
      have "status (snd (finish env Done ?s')) = Completed" by (rule finish_fields(1))
      moreover have "prefix (map Ev ys) es" using es by simp
      ultimately show ?thesis
        by (simp add: l yields_finish run_inv_Completed)
    next
      case (ErrorInternalEvent e)
      then have l: "loop env s = finish env (Thrown e) ?s'" using loop_error [OF q] h by simp
      have "status (snd (finish env (Thrown e) ?s')) = Completed" by (rule finish_fields(1))
      moreover have "prefix (map Ev ys) es" using es by simp
      ultimately show ?thesis
        by (simp add: l yields_finish run_inv_Completed)
    qed
  qed
qed

lemma notify_run_inv:
  assumes inv: "run_inv ys es s" and ns: "status s \<noteq> SuspendedStart"
    and len: "length es < MAX_SAFE_INTEGER"
  shows "run_inv ys (es @ [ev]) (notify ev s)"
proof (cases "live s")
  case False
  then have "status s = Completed" using ns by (cases "status s") (simp_all add: live_def)
  then have "status (notify ev s) = Completed" by (simp add: notify_fields)
  moreover have "prefix (map Ev ys) (es @ [ev])" using inv by (simp add: run_inv_def)
  ultimately show ?thesis by (simp add: run_inv_Completed)
next
  case True
  define rest where "rest = drop (length ys) es"
  have es: "es = map Ev ys @ rest"
    using inv by (auto simp: run_inv_def rest_def prefix_def)
  have q: "queue_inv (queue s)" and its: "items (queue s) = map Some rest"
    and gate: "resolver s = Some (waiter s)" "resolved s = {..<waiter s}"
      "promises s = Suc (waiter s)"
    and yf: "yieldedFileStreams s = file_streams ys"
    and aw: "\<forall>p. status s = Awaiting p \<longrightarrow> p \<le> waiter s"
    using inv True by (simp_all add: run_inv_def rest_def)
  have "size_q (queue s) = length rest" using its length_items [of "queue s"] by simp
  then have sz: "size_q (queue s) < MAX_SAFE_INTEGER" using len es by simp
  have q': "queue_inv (push ev (queue s))" using q sz by (rule queue_inv_push)
  have its': "items (push ev (queue s)) = map Some (rest @ [ev])"
    using items_push [OF q sz] its by simp
  have st: "notify ev s =
      s\<lparr>queue := push ev (queue s), resolver := Some (Suc (waiter s)),
        waiter := Suc (waiter s), promises := Suc (Suc (waiter s)),
        resolved := insert (waiter s) {..<waiter s}\<rparr>"
    using gate by (simp add: notify_def Let_def new_waiter_def)
  have "insert (waiter s) {..<waiter s} = {..<Suc (waiter s)}" by auto
  moreover have "drop (length ys) (es @ [ev]) = rest @ [ev]" using es by simp
  moreover have "prefix (map Ev ys) (es @ [ev])" using es by simp
  ultimately show ?thesis
    using True q' its' yf aw by (auto simp: st run_inv_def live_def)
qed

lemma listener_run_inv:
  assumes inv: "run_inv ys es s" and ns: "status s \<noteq> SuspendedStart"
    and len: "length es < MAX_SAFE_INTEGER"
  shows "run_inv ys (es @ enqueued [fst (listener env e s)]) (snd (listener env e s))"
proof (cases e)
  case (EmitFile name stream info)
  show ?thesis
  proof (cases "length (allowedFileNames s) = 0 \<or> name \<in> set (allowedFileNames s)")
    case True
    then show ?thesis
      using notify_run_inv [OF inv ns len] EmitFile by (simp add: onFile_def)
  next
    case False
    then have "listener env e s = (Skipped stream, snd (ext env (StreamResume stream) s))"
      using EmitFile by (simp add: onFile_def)
    then show ?thesis using run_inv_keeps [OF inv keeps_ext ns] by simp
  qed
qed (use notify_run_inv [OF inv ns len] in
      \<open>simp_all add: onClose_def onError_def onField_def onFieldsLimit_def
         onFilesLimit_def onPartsLimit_def\<close>)

lemma yields_listener: "yields [fst (listener env e s)] = []"
  by (cases e) simp_all

lemma start_run_inv:
  assumes inv: "run_inv ys es s" and st: "status s = SuspendedStart"
  shows "run_inv (ys @ yields [Result (fst (start env s))]) es (snd (start env s))"
proof -
  have e: "ys = []" "es = []" "promises s = 0" "resolved s = {}"
    using inv st by (simp_all add: run_inv_def)
  note sh = start_shape [of env s]
  from sh(2) show ?thesis
  proof (elim disjE conjE exE)
    fix x assume "status (snd (start env s)) = Completed" "fst (start env s) = Thrown x"
    then show ?thesis using e by (simp add: run_inv_Completed)
  next
    assume a: "status (snd (start env s)) = Awaiting (promises s)"
      "fst (start env s) = Pending" "yieldedFileStreams (snd (start env s)) = []"
    show ?thesis
      using sh(1) a e
      by (simp add: run_inv_def live_def keeps_def prologue_fields queue_inv_new items_new)
  qed
qed

lemma step_run_inv:
  assumes inv: "run_inv ys es s" and len: "length es < MAX_SAFE_INTEGER"
  shows "run_inv (ys @ yields [fst (step env a s)]) (es @ enqueued [fst (step env a s)])
           (snd (step env a s))"
proof (cases a)
  case Next
  show ?thesis
  proof (cases "status s")
    case SuspendedStart
    then show ?thesis using start_run_inv [OF inv SuspendedStart, of env] Next
      by (simp add: split_beta)
  next
    case SuspendedYield
    then have "live s" by (simp add: live_def)
    from loop_run_inv [OF inv this, of env] show ?thesis using Next SuspendedYield
      by (simp add: split_beta)
  next
    case (Awaiting p)
    then show ?thesis using inv Next by simp
  next
    case Completed
    then show ?thesis using inv Next by simp
  qed
next
  case Return
  show ?thesis
  proof (cases "status s")
    case SuspendedStart
    then show ?thesis using inv Return by (simp add: run_inv_Completed) (simp add: run_inv_def)
  next
    case SuspendedYield
    have "status (snd (finish env Done s)) = Completed" by (rule finish_fields(1))
    moreover have "prefix (map Ev ys) es" using inv by (simp add: run_inv_def)
    ultimately show ?thesis using Return SuspendedYield
      by (simp add: split_beta yields_finish run_inv_Completed)
  next
    case (Awaiting p)
    then show ?thesis using inv Return by simp
  next
    case Completed
    then show ?thesis using inv Return by simp
  qed
next
  case Wake
  show ?thesis
  proof (cases "\<exists>p. status s = Awaiting p \<and> p \<in> resolved s")
    case True
    then obtain p where p: "status s = Awaiting p" "p \<in> resolved s" by blast
    then have "live s" by (simp add: live_def)
    from loop_run_inv [OF inv this, of env] show ?thesis using Wake p
      by (simp add: split_beta)
  next
    case False
    then have "step env Wake s = (Refused, s)" by (cases "status s") auto
    then show ?thesis using inv Wake by simp
  qed
next
  case (Emit e)
  show ?thesis
  proof (cases "emit_name e \<in> set (attached s)")
    case True
    then have "status s \<noteq> SuspendedStart" using inv by (auto simp: run_inv_def)
    from listener_run_inv [OF inv this len, of env e] show ?thesis using Emit True
      by (simp add: yields_listener)
  next
    case False
    then show ?thesis using inv Emit by simp
  qed
qed

lemma run_run_inv:
  "run_inv ys es s \<Longrightarrow> length es + length acts \<le> MAX_SAFE_INTEGER \<Longrightarrow>
   run_inv (ys @ yields (fst (run env acts s))) (es @ enqueued (fst (run env acts s)))
     (snd (run env acts s))"
proof (induction acts arbitrary: ys es s)
  case Nil
  then show ?case by simp
next
  case (Cons a acts)
  let ?ob = "fst (step env a s)" and ?s' = "snd (step env a s)"
  have len: "length es < MAX_SAFE_INTEGER" using Cons.prems(2) by simp
  have inv': "run_inv (ys @ yields [?ob]) (es @ enqueued [?ob]) ?s'"
    using Cons.prems(1) len by (rule step_run_inv)
  have "length (es @ enqueued [?ob]) + length acts \<le> MAX_SAFE_INTEGER"
    using Cons.prems(2) length_enqueued1 [of ?ob] by simp
  from Cons.IH [OF inv' this]
  have "run_inv (ys @ yields [?ob] @ yields (fst (run env acts ?s')))
          (es @ enqueued [?ob] @ enqueued (fst (run env acts ?s')))
          (snd (run env acts ?s'))" by simp
  moreover have "fst (run env (a # acts) s) = ?ob # fst (run env acts ?s')"
    and "snd (run env (a # acts) s) = snd (run env acts ?s')"
    by (simp_all add: split_beta)
  ultimately show ?case
    using yields_Cons [of ?ob "fst (run env acts ?s')"]
      enqueued_Cons [of ?ob "fst (run env acts ?s')"] by simp
qed

lemma run_inv_initial: "run_inv [] [] (busboy cfg h)"
  by (simp add: run_inv_def busboy_def live_def)

text \<open>The definitions an example is evaluated with.\<close>

lemmas model_defs =
  busboy_def start_def prologue_def new_waiter_def read_allowedFileNames_def
  delete_allowedFileNames_def spread_config_def ext_def listener_names_def loop_def
  finish_def teardown_def cleanup_stream_def swallow_def notify_def onClose_def onError_def
  onField_def onFieldsLimit_def onFilesLimit_def onPartsLimit_def onFile_def
  new_Queue_def isEmpty_def push_def pop_def advance_def MAX_SAFE_INTEGER_def
  quiet_env_def example_heap_def example_run_def example_field_def example_info_def Let_def



section \<open>The claims about the sequence of events\<close>



lemma step_Completed:
  assumes "status s = Completed"
  shows "status (snd (step env a s)) = Completed" and "yields [fst (step env a s)] = []"
  using assms by (cases a; simp add: listener_fields yields_listener)+

lemma run_Completed:
  "status s = Completed \<Longrightarrow>
   status (snd (run env acts s)) = Completed \<and> yields (fst (run env acts s)) = []"
proof (induction acts arbitrary: s)
  case Nil
  then show ?case by simp
next
  case (Cons a acts)
  note st = step_Completed [OF Cons.prems, of env a]
  from Cons.IH [OF st(1)] st(2) show ?case
    using yields_Cons [of "fst (step env a s)" "fst (run env acts (snd (step env a s)))"]
    by (simp add: split_beta del: step.simps)
qed

lemma run_Next_public:
  "queue_inv (queue s) \<Longrightarrow> items (queue s) = map (Some \<circ> Ev) pend @ rest \<Longrightarrow>
   status s = SuspendedYield \<Longrightarrow>
   fst (run env (replicate (length pend) Next) s) = map (Result \<circ> Yielded) pend \<and>
   status (snd (run env (replicate (length pend) Next) s)) = SuspendedYield \<and>
   queue_inv (queue (snd (run env (replicate (length pend) Next) s))) \<and>
   items (queue (snd (run env (replicate (length pend) Next) s))) = rest"
proof (induction pend arbitrary: s)
  case Nil
  then show ?case by simp
next
  case (Cons e pend)
  have h: "items (queue s) = Some (Ev e) # (map (Some \<circ> Ev) pend @ rest)"
    using Cons.prems(2) by simp
  note l = loop_public [OF Cons.prems(1) h, of env]
  let ?s' = "snd (loop env s)"
  have st: "step env Next s = (Result (Yielded e), ?s')"
    using Cons.prems(3) l by simp
  have "queue_inv (queue ?s')" "items (queue ?s') = map (Some \<circ> Ev) pend @ rest"
    "status ?s' = SuspendedYield"
    using loop_head(3,4) [OF Cons.prems(1) h] by (simp_all add: l)
  from Cons.IH [OF this] show ?case
    by (simp add: st split_beta del: step.simps)
qed





section \<open>Facts about the wake gate\<close>

lemma notify_gate:
  assumes "gate_inv s"
  shows "notify ev s =
      s\<lparr>queue := push ev (queue s), resolver := Some (Suc (waiter s)),
        waiter := Suc (waiter s), promises := Suc (Suc (waiter s)),
        resolved := {..<Suc (waiter s)}\<rparr>"
proof -
  have "insert (waiter s) {..<waiter s} = {..<Suc (waiter s)}" by auto
  then show ?thesis using assms by (simp add: gate_inv_def notify_def Let_def new_waiter_def)
qed

lemma notifies_gate:
  "gate_inv s \<Longrightarrow> queue_inv (queue s) \<Longrightarrow>
   size_q (queue s) + length evs \<le> MAX_SAFE_INTEGER \<Longrightarrow>
   gate_inv (fold notify evs s) \<and>
   waiter (fold notify evs s) = waiter s + length evs \<and>
   status (fold notify evs s) = status s \<and>
   queue_inv (queue (fold notify evs s)) \<and>
   items (queue (fold notify evs s)) = items (queue s) @ map Some evs"
proof (induction evs arbitrary: s)
  case Nil
  then show ?case by simp
next
  case (Cons ev evs)
  have sz: "size_q (queue s) < MAX_SAFE_INTEGER" using Cons.prems(3) by simp
  note st = notify_gate [OF Cons.prems(1), of ev]
  have g: "gate_inv (notify ev s)" by (simp add: st gate_inv_def)
  have q: "queue_inv (queue (notify ev s))"
    using queue_inv_push [OF Cons.prems(2) sz, of ev] by (simp add: st)
  have its: "items (queue (notify ev s)) = items (queue s) @ [Some ev]"
    using items_push [OF Cons.prems(2) sz, of ev] by (simp add: st)
  have "size_q (queue (notify ev s)) = Suc (size_q (queue s))"
    using its length_items [of "queue (notify ev s)"] length_items [of "queue s"] by simp
  then have "size_q (queue (notify ev s)) + length evs \<le> MAX_SAFE_INTEGER"
    using Cons.prems(3) by simp
  from Cons.IH [OF g q this] show ?case using its by (simp add: st)
qed

text \<open>
  C7. The wake protocol loses no events. With the gate in its state between two calls of
  \<^verbatim>\<open>notify\<close>: \<^verbatim>\<open>notify\<close> resolves the current wait handle and leaves a new, unresolved
  one installed. The loop suspends on the wait handle exactly when it finds the queue
  empty, and it then awaits the current handle. A wake-up runs the loop again, which tests
  the queue again. Hence, when one or more events are pushed while the consumer is
  suspended on the current handle with an empty queue, the handle it awaits is resolved,
  and one wake-up followed by the consumer's further requests yields all of the events
  pushed, in order.
\<close>

theorem wake_protocol_loses_no_events:
  assumes "gate_inv s" and "queue_inv (queue s)"
  shows
    "(waiter s \<in> resolved (notify ev s) \<and> waiter (notify ev s) \<noteq> waiter s \<and>
      waiter (notify ev s) \<notin> resolved (notify ev s) \<and> gate_inv (notify ev s)) \<and>
     (fst (loop env s) = Pending \<longleftrightarrow> isEmpty (queue s)) \<and>
     (isEmpty (queue s) \<longrightarrow> status (snd (loop env s)) = Awaiting (waiter s)) \<and>
     (\<forall>p. status s = Awaiting p \<longrightarrow>
        step env Wake s = (if p \<in> resolved s then (Result (fst (loop env s)), snd (loop env s))
                           else (Refused, s))) \<and>
     (status s = Awaiting (waiter s) \<and> isEmpty (queue s) \<and> evs \<noteq> [] \<and>
      length evs \<le> MAX_SAFE_INTEGER \<longrightarrow>
        waiter s \<in> resolved (fold notify (map Ev evs) s) \<and>
        status (fold notify (map Ev evs) s) = Awaiting (waiter s) \<and>
        fst (run env (Wake # replicate (length evs - 1) Next) (fold notify (map Ev evs) s))
          = map (Result \<circ> Yielded) evs)"
proof (intro conjI impI allI)
  note st = notify_gate [OF assms(1), of ev]
  show "waiter s \<in> resolved (notify ev s)" by (simp add: st)
  show "waiter (notify ev s) \<noteq> waiter s" by (simp add: st)
  show "waiter (notify ev s) \<notin> resolved (notify ev s)" by (simp add: st)
  show "gate_inv (notify ev s)" by (simp add: st gate_inv_def)
next
  show "fst (loop env s) = Pending \<longleftrightarrow> isEmpty (queue s)"
  proof (cases "isEmpty (queue s)")
    case True
    then show ?thesis by (simp add: loop_empty)
  next
    case False
    then obtain x rest where "items (queue s) = x # rest"
      using items_isEmpty [OF assms(2)] by (cases "items (queue s)") auto
    moreover have "x \<noteq> None" using items_pop(1,2) [OF assms(2) False] calculation by simp
    ultimately obtain ev' where h: "items (queue s) = Some ev' # rest" by auto
    have "fst (loop env s) \<noteq> Pending"
    proof (cases ev')
      case (Ev e)
      then show ?thesis using loop_public [OF assms(2), of e rest env] h by simp
    next
      case CloseInternalEvent
      then show ?thesis
        using loop_close [OF assms(2), of rest env] h
          finish_result [of env Done "s\<lparr>queue := snd (pop (queue s))\<rparr>"] by auto
    next
      case (ErrorInternalEvent e)
      then show ?thesis
        using loop_error [OF assms(2), of e rest env] h
          finish_result [of env "Thrown e" "s\<lparr>queue := snd (pop (queue s))\<rparr>"] by auto
    qed
    then show ?thesis using False by simp
  qed
next
  assume "isEmpty (queue s)"
  then show "status (snd (loop env s)) = Awaiting (waiter s)" by (simp add: loop_empty)
next
  fix p assume "status s = Awaiting p"
  then show "step env Wake s = (if p \<in> resolved s then (Result (fst (loop env s)), snd (loop env s))
                           else (Refused, s))"
    by (simp add: split_beta)
next
  assume a: "status s = Awaiting (waiter s) \<and> isEmpty (queue s) \<and> evs \<noteq> [] \<and>
      length evs \<le> MAX_SAFE_INTEGER"
  let ?s' = "fold notify (map Ev evs) s"
  have e: "items (queue s) = []" using a items_isEmpty [OF assms(2)] by simp
  then have "size_q (queue s) = 0" using length_items [of "queue s"] by simp
  then have "size_q (queue s) + length (map Ev evs) \<le> MAX_SAFE_INTEGER" using a by simp
  note n = notifies_gate [OF assms this]
  obtain e0 evs' where evs: "evs = e0 # evs'" using a by (cases evs) auto
  have w: "waiter ?s' = waiter s + length evs" using n by simp
  have "resolved ?s' = {..<waiter ?s'}" using n by (simp add: gate_inv_def)
  then show r: "waiter s \<in> resolved ?s'" using w evs by simp
  show s: "status ?s' = Awaiting (waiter s)" using n a by simp
  have q: "queue_inv (queue ?s')" using n by simp
  have its: "items (queue ?s') = Some (Ev e0) # (map (Some \<circ> Ev) evs' @ [])"
    using n e evs by simp
  note l = loop_public [OF q its, of env]
  have st: "step env Wake ?s' = (Result (Yielded e0), snd (loop env ?s'))"
    using s r l by (simp add: split_beta)
  have "queue_inv (queue (snd (loop env ?s')))"
    "items (queue (snd (loop env ?s'))) = map (Some \<circ> Ev) evs' @ []"
    "status (snd (loop env ?s')) = SuspendedYield"
    using loop_head(3,4) [OF q its] by (simp_all add: l)
  from run_Next_public [OF this, of env]
  have "fst (run env (Wake # replicate (length evs') Next) ?s')
          = Result (Yielded e0) # map (Result \<circ> Yielded) evs'"
    by (simp add: st split_beta del: step.simps)
  moreover have "length evs - 1 = length evs'"
    and "map (Result \<circ> Yielded) evs = Result (Yielded e0) # map (Result \<circ> Yielded) evs'"
    using evs by simp_all
  ultimately show "fst (run env (Wake # replicate (length evs - 1) Next) ?s')
          = map (Result \<circ> Yielded) evs"
    by (simp only:)
qed

theorem wake_protocol_loses_no_events_witness:
  "gate_inv (snd (run quiet_env [Next] (busboy None example_heap))) \<and>
   queue_inv (queue (snd (run quiet_env [Next] (busboy None example_heap)))) \<and>
   status (snd (run quiet_env [Next] (busboy None example_heap)))
     = Awaiting (waiter (snd (run quiet_env [Next] (busboy None example_heap)))) \<and>
   isEmpty (queue (snd (run quiet_env [Next] (busboy None example_heap)))) \<and>
   fst (run quiet_env [Wake, Next]
          (fold notify [Ev example_field, Ev FieldsLimitEvent]
             (snd (run quiet_env [Next] (busboy None example_heap)))))
     = [Result (Yielded example_field), Result (Yielded FieldsLimitEvent)]"
proof -
  let ?s = "snd (run quiet_env [Next] (busboy None example_heap))"
  have g: "gate_inv ?s" by (simp add: gate_inv_def) (simp add: model_defs)
  have q: "queue_inv (queue ?s)"
    by (simp add: queue_inv_def size_q_def) (simp add: model_defs)
  have a: "status ?s = Awaiting (waiter ?s)" by (simp add: model_defs)
  have e: "isEmpty (queue ?s)" by (simp add: model_defs)
  have l: "[example_field, FieldsLimitEvent] \<noteq> []"
    "length [example_field, FieldsLimitEvent] \<le> MAX_SAFE_INTEGER"
    by (simp_all add: MAX_SAFE_INTEGER_def)
  note t = wake_protocol_loses_no_events [OF g q, of _ quiet_env
      "[example_field, FieldsLimitEvent]"]
  have "fst (run quiet_env (Wake # replicate (length [example_field, FieldsLimitEvent] - 1) Next)
          (fold notify (map Ev [example_field, FieldsLimitEvent]) ?s))
        = map (Result \<circ> Yielded) [example_field, FieldsLimitEvent]"
    using t a e l by blast
  then have "fst (run quiet_env [Wake, Next]
          (fold notify [Ev example_field, Ev FieldsLimitEvent] ?s))
     = [Result (Yielded example_field), Result (Yielded FieldsLimitEvent)]"
    by (simp del: run.simps fold_simps)
  then show ?thesis using g q a e by blast
qed

section \<open>Facts about the calls the teardown makes\<close>

lemma calls_ext: "calls (snd (ext env c s)) = calls s @ [c]"
  by (cases c) (simp_all add: ext_def Let_def split: option.splits)

lemma exts_some:
  "\<exists>k. calls (snd (exts env cs s)) = calls s @ take k cs"
proof (induction cs arbitrary: s)
  case Nil
  show ?case by simp
next
  case (Cons c cs)
  show ?case
  proof (cases "fst (ext env c s)")
    case None
    then have "snd (exts env (c # cs) s) = snd (exts env cs (snd (ext env c s)))"
      by (simp add: split_beta)
    moreover obtain k where
      "calls (snd (exts env cs (snd (ext env c s)))) = calls (snd (ext env c s)) @ take k cs"
      using Cons.IH by blast
    ultimately have "calls (snd (exts env (c # cs) s)) = calls s @ take (Suc k) (c # cs)"
      by (simp add: calls_ext)
    then show ?thesis by blast
  next
    case (Some e)
    then have "snd (exts env (c # cs) s) = snd (ext env c s)" by (simp add: split_beta)
    then have "calls (snd (exts env (c # cs) s)) = calls s @ take (Suc 0) (c # cs)"
      by (simp add: calls_ext)
    then show ?thesis by blast
  qed
qed


lemma teardown_unfold:
  "teardown env s =
     (case exts env (map BusboyOff listener_names)
             (swallow (if source_readable env
                       then ext env SourceResume (swallow (ext env SourceUnpipe s))
                       else (None, swallow (ext env SourceUnpipe s)))) of
        (Some e, s3) \<Rightarrow> (Some e, s3)
      | (None, s3) \<Rightarrow>
          (if \<not> busboy_destroyed env
           then exts env [BusboyOnceError, BusboyEnd, BusboyDestroy]
                  (fold (cleanup_stream env) (yieldedFileStreams s3) s3)
           else (None, fold (cleanup_stream env) (yieldedFileStreams s3) s3)))"
  unfolding teardown_def Let_def by (rule refl)





section \<open>The claims about the teardown\<close>

lemma exts_calls_set: "set (calls (snd (exts env cs s))) \<subseteq> set (calls s) \<union> set cs"
proof -
  obtain k where "calls (snd (exts env cs s)) = calls s @ take k cs"
    using exts_some by blast
  then show ?thesis using set_take_subset [of k cs] by auto
qed

lemma cleanup_stream_calls_set:
  "set (calls (cleanup_stream env y s))
   \<subseteq> set (calls s) \<union> {StreamOnceError y, StreamResume y, StreamDestroy y}"
  using exts_calls_set [of env "[StreamOnceError y, StreamResume y, StreamDestroy y]" s]
  by (auto simp: cleanup_stream_def swallow_def simp del: exts.simps)

lemma fold_cleanup_calls_set:
  "set (calls (fold (cleanup_stream env) ys s))
   \<subseteq> set (calls s) \<union> (\<Union>y \<in> set ys. {StreamOnceError y, StreamResume y, StreamDestroy y})"
proof (induction ys arbitrary: s)
  case Nil
  show ?case by simp
next
  case (Cons y ys)
  show ?case
    using Cons.IH [of "cleanup_stream env y s"] cleanup_stream_calls_set [of env y s]
    by auto
qed

lemma teardown_destroys_only:
  assumes "StreamDestroy x \<in> set (calls (snd (teardown env s)))"
  shows "StreamDestroy x \<in> set (calls s) \<or> x \<in> set (yieldedFileStreams s)"
proof -
  let ?s1 = "swallow (ext env SourceUnpipe s)"
  let ?s2 = "swallow (if source_readable env then ext env SourceResume ?s1 else (None, ?s1))"
  let ?r3 = "exts env (map BusboyOff listener_names) ?s2"
  let ?s4 = "fold (cleanup_stream env) (yieldedFileStreams (snd ?r3)) (snd ?r3)"
  let ?s5 = "snd (exts env [BusboyOnceError, BusboyEnd, BusboyDestroy] ?s4)"
  have c2: "set (calls ?s2) \<subseteq> set (calls s) \<union> {SourceUnpipe, SourceResume}"
    by (auto simp: swallow_def calls_ext)
  have c3: "set (calls (snd ?r3)) \<subseteq> set (calls ?s2) \<union> BusboyOff ` set listener_names"
    using exts_calls_set [of env "map BusboyOff listener_names" ?s2] by simp
  have k3: "yieldedFileStreams (snd ?r3) = yieldedFileStreams s"
  proof -
    have "keeps s ?s1" by (simp add: swallow_def keeps_ext)
    moreover have "keeps ?s1 ?s2" by (simp add: swallow_def keeps_ext keeps_refl)
    moreover have "keeps ?s2 (snd ?r3)" by (rule keeps_exts)
    ultimately show ?thesis by (simp add: keeps_def)
  qed
  have c4: "set (calls ?s4) \<subseteq> set (calls (snd ?r3)) \<union>
      (\<Union>y \<in> set (yieldedFileStreams s). {StreamOnceError y, StreamResume y, StreamDestroy y})"
    using fold_cleanup_calls_set [of env "yieldedFileStreams (snd ?r3)" "snd ?r3"] k3 by simp
  have c5: "set (calls ?s5) \<subseteq> set (calls ?s4) \<union> {BusboyOnceError, BusboyEnd, BusboyDestroy}"
    using exts_calls_set [of env "[BusboyOnceError, BusboyEnd, BusboyDestroy]" ?s4]
    by (simp del: exts.simps)
  have "snd (teardown env s) = snd ?r3 \<or> snd (teardown env s) = ?s4 \<or>
        snd (teardown env s) = ?s5"
    unfolding teardown_unfold
    by (cases ?r3; cases "fst ?r3"; cases "busboy_destroyed env") (auto simp del: exts.simps)
  then have "set (calls (snd (teardown env s))) \<subseteq> set (calls ?s5) \<union> set (calls ?s4)
      \<union> set (calls (snd ?r3))" by auto
  then have "StreamDestroy x \<in> set (calls ?s5) \<union> set (calls ?s4) \<union> set (calls (snd ?r3))"
    using assms by blast
  then show ?thesis using c2 c3 c4 c5 by auto
qed

text \<open>
  C2, as the code has it. A file event is recorded when it is yielded, not when it is
  enqueued: while the generator is inside its loop, \<^verbatim>\<open>yieldedFileStreams\<close> holds exactly
  the streams of the file events yielded so far, in order, and none of the file events
  still in the queue. The teardown calls \<^verbatim>\<open>destroy\<close> on recorded streams only.
\<close>

theorem yielded_file_streams_recorded:
  assumes "length acts \<le> MAX_SAFE_INTEGER"
    and "run env acts (busboy cfg h) = (obs, s)"
  shows "(live s \<longrightarrow> yieldedFileStreams s = file_streams (yields obs)) \<and>
         (\<forall>s0 x. StreamDestroy x \<in> set (calls (snd (teardown env s0))) \<longrightarrow>
            StreamDestroy x \<in> set (calls s0) \<or> x \<in> set (yieldedFileStreams s0))"
proof -
  have inv: "run_inv (yields obs) (enqueued obs) s"
    using run_run_inv [where ys="[]" and es="[]" and s="busboy cfg h" and acts=acts
        and env=env, OF run_inv_initial] assms
    by simp
  then have "live s \<longrightarrow> yieldedFileStreams s = file_streams (yields obs)"
    by (simp add: run_inv_def)
  then show ?thesis using teardown_destroys_only by blast
qed

theorem yielded_file_streams_recorded_witness:
  "length (butlast example_abandon_run) \<le> MAX_SAFE_INTEGER \<and>
   live (snd (run quiet_env (butlast example_abandon_run) (busboy None example_heap))) \<and>
   enqueued (fst (run quiet_env (butlast example_abandon_run) (busboy None example_heap)))
     = [Ev (FileEvent ''image'' 7 example_info), Ev (FileEvent ''image'' 8 example_info),
        Ev (FileEvent ''document'' 9 example_info)] \<and>
   yieldedFileStreams (snd (run quiet_env (butlast example_abandon_run) (busboy None example_heap)))
     = [7]"
proof -
  let ?r = "run quiet_env (butlast example_abandon_run) (busboy None example_heap)"
  have len: "length (butlast example_abandon_run) \<le> MAX_SAFE_INTEGER"
    by (simp add: example_abandon_run_def MAX_SAFE_INTEGER_def)
  have r: "?r = (fst ?r, snd ?r)" by simp
  have lv: "live (snd ?r)" by (simp add: live_def) (simp add: model_defs example_abandon_run_def)
  have obs: "fst ?r = [Result Pending, Notified (Ev (FileEvent ''image'' 7 example_info)),
      Notified (Ev (FileEvent ''image'' 8 example_info)),
      Notified (Ev (FileEvent ''document'' 9 example_info)),
      Result (Yielded (FileEvent ''image'' 7 example_info))]"
    by (simp add: model_defs example_abandon_run_def)
  from yielded_file_streams_recorded [OF len r] lv
  have "yieldedFileStreams (snd ?r) = file_streams (yields (fst ?r))" by blast
  then have "yieldedFileStreams (snd ?r) = [7]" unfolding obs by simp
  moreover have "enqueued (fst ?r)
     = [Ev (FileEvent ''image'' 7 example_info), Ev (FileEvent ''image'' 8 example_info),
        Ev (FileEvent ''document'' 9 example_info)]" unfolding obs by simp
  ultimately show ?thesis using len lv by blast
qed


text \<open>
  C2, as the claim states it, fails: three file events are enqueued, the consumer is
  yielded the first and abandons the iteration; only the first stream is recorded, and
  the teardown does not destroy the streams of the two events left in the queue.
\<close>

theorem queued_file_streams_not_recorded_counterexample:
  "enqueued (fst (run quiet_env example_abandon_run (busboy None example_heap)))
     = [Ev (FileEvent ''image'' 7 example_info), Ev (FileEvent ''image'' 8 example_info),
        Ev (FileEvent ''document'' 9 example_info)] \<and>
   yields (fst (run quiet_env example_abandon_run (busboy None example_heap)))
     = [FileEvent ''image'' 7 example_info] \<and>
   status (snd (run quiet_env example_abandon_run (busboy None example_heap))) = Completed \<and>
   yieldedFileStreams (snd (run quiet_env example_abandon_run (busboy None example_heap)))
     = [7] \<and>
   StreamDestroy 8
     \<notin> set (calls (snd (run quiet_env example_abandon_run (busboy None example_heap)))) \<and>
   StreamDestroy 9
     \<notin> set (calls (snd (run quiet_env example_abandon_run (busboy None example_heap))))"
  by (simp add: model_defs example_abandon_run_def)

section \<open>The teardown, call by call\<close>

lemma exts_exact:
  "fst (exts env cs s) = first_raise env cs \<and>
   calls (snd (exts env cs s)) = calls s @ attempted env cs"
proof (induction cs arbitrary: s)
  case Nil
  show ?case by simp
next
  case (Cons c cs)
  show ?case
  proof (cases "throws env c")
    case None
    then have "fst (ext env c s) = None" by (simp add: ext_def Let_def)
    then have "exts env (c # cs) s = exts env cs (snd (ext env c s))"
      by (simp add: split_beta)
    then show ?thesis using Cons.IH [of "snd (ext env c s)"] None by (simp add: calls_ext)
  next
    case (Some e)
    then have "fst (ext env c s) = Some e" by (simp add: ext_def Let_def)
    then have "exts env (c # cs) s = (Some e, snd (ext env c s))" by (simp add: split_beta)
    then show ?thesis using Some by (simp add: calls_ext)
  qed
qed

lemma first_raise_append:
  "first_raise env (cs @ ds)
   = (case first_raise env cs of Some e \<Rightarrow> Some e | None \<Rightarrow> first_raise env ds)"
  by (induction cs) (simp_all split: option.splits)

lemma cleanup_stream_exact:
  "calls (cleanup_stream env x s) = calls s @ stream_calls env x"
  using exts_exact [of env "[StreamOnceError x, StreamResume x, StreamDestroy x]" s]
  by (simp add: cleanup_stream_def swallow_def stream_calls_def del: exts.simps)

lemma fold_cleanup_exact:
  "calls (fold (cleanup_stream env) xs s) = calls s @ concat (map (stream_calls env) xs)"
  by (induction xs arbitrary: s) (simp_all add: cleanup_stream_exact)

lemma teardown_exact:
  "fst (teardown env s) = first_raise env (unwrapped_steps env)"
  "calls (snd (teardown env s)) = calls s @ teardown_calls env (yieldedFileStreams s)"
proof -
  let ?s1 = "swallow (ext env SourceUnpipe s)"
  let ?s2 = "swallow (if source_readable env then ext env SourceResume ?s1 else (None, ?s1))"
  let ?offs = "map BusboyOff listener_names"
  let ?prod = "[BusboyOnceError, BusboyEnd, BusboyDestroy]"
  let ?r3 = "exts env ?offs ?s2"
  let ?s4 = "fold (cleanup_stream env) (yieldedFileStreams (snd ?r3)) (snd ?r3)"
  let ?r5 = "exts env ?prod ?s4"
  have c2: "calls ?s2 = calls s @ SourceUnpipe # (if source_readable env then [SourceResume] else [])"
    by (simp add: swallow_def calls_ext)
  have r3: "fst ?r3 = first_raise env ?offs" "calls (snd ?r3) = calls ?s2 @ attempted env ?offs"
    using exts_exact [of env ?offs ?s2] by simp_all
  have k3: "yieldedFileStreams (snd ?r3) = yieldedFileStreams s"
  proof -
    have "keeps s ?s1" by (simp add: swallow_def keeps_ext)
    moreover have "keeps ?s1 ?s2" by (simp add: swallow_def keeps_ext keeps_refl)
    moreover have "keeps ?s2 (snd ?r3)" by (rule keeps_exts)
    ultimately show ?thesis by (simp add: keeps_def)
  qed
  have c4: "calls ?s4 = calls (snd ?r3) @ concat (map (stream_calls env) (yieldedFileStreams s))"
    using fold_cleanup_exact [of env "yieldedFileStreams (snd ?r3)" "snd ?r3"] by (simp only: k3)
  have r5: "fst ?r5 = first_raise env ?prod" "calls (snd ?r5) = calls ?s4 @ attempted env ?prod"
    using exts_exact [of env ?prod ?s4] by simp_all
  have td: "teardown env s =
      (case fst ?r3 of Some e \<Rightarrow> (Some e, snd ?r3)
       | None \<Rightarrow> if \<not> busboy_destroyed env then ?r5 else (None, ?s4))"
    unfolding teardown_unfold by (cases ?r3; cases "fst ?r3") (simp_all del: exts.simps)
  show "fst (teardown env s) = first_raise env (unwrapped_steps env)"
  proof (cases "first_raise env ?offs")
    case None
    then show ?thesis using r3(1) r5(1)
      by (simp add: td unwrapped_steps_def first_raise_append
            del: exts.simps)
  next
    case (Some e)
    then show ?thesis using r3(1)
      by (simp add: td unwrapped_steps_def first_raise_append
            del: exts.simps)
  qed
  show "calls (snd (teardown env s)) = calls s @ teardown_calls env (yieldedFileStreams s)"
  proof (cases "first_raise env ?offs")
    case None
    then show ?thesis using r3 r5(2) c4 c2
      by (simp add: td teardown_calls_def del: exts.simps)
  next
    case (Some e)
    then show ?thesis using r3 c2
      by (simp add: td teardown_calls_def del: exts.simps)
  qed
qed

lemma finish_exact:
  "fst (finish env r s)
   = (case first_raise env (unwrapped_steps env) of None \<Rightarrow> r | Some e \<Rightarrow> Thrown e)"
  "calls (snd (finish env r s)) = calls s @ teardown_calls env (yieldedFileStreams s)"
  "status (snd (finish env r s)) = Completed"
  using teardown_exact [of env s]
  by (cases "teardown env s"; cases "fst (teardown env s)"; simp add: finish_def)+








text \<open>
  C6, as the code has it. Unpiping the source, resuming the source, and the clean-up of
  each recorded stream stand in \<^verbatim>\<open>try\<close> blocks: what they raise never leaves the
  teardown and never changes how the request ends, and the steps after them are made all
  the same (a stream's clean-up stops at the first of its own three calls that raises).
  Removing the seven listeners and, on a producer not destroyed yet, \<^verbatim>\<open>once\<close>, \<^verbatim>\<open>end\<close>
  and \<^verbatim>\<open>destroy\<close> stand outside: the first of these that raises ends the teardown there,
  no later step is made (no clean-up of the streams, if it was a listener removal), and
  the request raises that exception instead of ending with its own termination cause.
  Exactly: the exception that leaves the teardown is that of the first unwrapped step that
  raises, the request ends with its own cause if there is none and raises that exception
  otherwise, and the calls made are those of \<open>teardown_calls\<close>.
\<close>

theorem teardown_steps_and_their_exceptions:
  "fst (teardown env s) = first_raise env (unwrapped_steps env) \<and>
   fst (finish env r s)
     = (case first_raise env (unwrapped_steps env) of None \<Rightarrow> r | Some e \<Rightarrow> Thrown e) \<and>
   calls (snd (teardown env s)) = calls s @ teardown_calls env (yieldedFileStreams s) \<and>
   calls (snd (finish env r s)) = calls s @ teardown_calls env (yieldedFileStreams s)"
  by (simp only: teardown_exact finish_exact simp_thms)

theorem teardown_steps_and_their_exceptions_witness:
  "yieldedFileStreams
     (snd (run caught_raise_env (butlast example_file_error_run) (busboy None example_heap)))
     = [7] \<and>
   throws caught_raise_env SourceUnpipe = Some (VStr ''unpipe failed'') \<and>
   throws caught_raise_env (StreamResume 7) = Some (VStr ''stream failed'') \<and>
   fst (finish caught_raise_env (Thrown (VStr ''boom''))
     (snd (run caught_raise_env (butlast example_file_error_run) (busboy None example_heap))))
     = Thrown (VStr ''boom'') \<and>
   teardown_calls caught_raise_env [7]
     = [SourceUnpipe, SourceResume, BusboyOff ''close'', BusboyOff ''error'',
        BusboyOff ''field'', BusboyOff ''fieldsLimit'', BusboyOff ''file'',
        BusboyOff ''filesLimit'', BusboyOff ''partsLimit'', StreamOnceError 7,
        StreamResume 7, BusboyOnceError, BusboyEnd, BusboyDestroy] \<and>
   calls (snd (teardown caught_raise_env
     (snd (run caught_raise_env (butlast example_file_error_run) (busboy None example_heap)))))
     = calls (snd (run caught_raise_env (butlast example_file_error_run)
         (busboy None example_heap))) @ teardown_calls caught_raise_env [7] \<and>
   fst (finish end_raises_env Done
     (snd (run end_raises_env (butlast example_file_error_run) (busboy None example_heap))))
     = Thrown (VStr ''end failed'') \<and>
   teardown_calls end_raises_env [7]
     = [SourceUnpipe, SourceResume, BusboyOff ''close'', BusboyOff ''error'',
        BusboyOff ''field'', BusboyOff ''fieldsLimit'', BusboyOff ''file'',
        BusboyOff ''filesLimit'', BusboyOff ''partsLimit'', StreamOnceError 7,
        StreamResume 7, StreamDestroy 7, BusboyOnceError, BusboyEnd]"
proof -
  let ?s = "snd (run caught_raise_env (butlast example_file_error_run)
      (busboy None example_heap))"
  let ?s' = "snd (run end_raises_env (butlast example_file_error_run)
      (busboy None example_heap))"
  have y: "yieldedFileStreams ?s = [7]"
    by (simp add: model_defs caught_raise_env_def example_file_error_run_def)
  have thr: "throws caught_raise_env SourceUnpipe = Some (VStr ''unpipe failed'')"
    "throws caught_raise_env (StreamResume 7) = Some (VStr ''stream failed'')"
    by (simp_all add: caught_raise_env_def quiet_env_def)
  have f1: "first_raise caught_raise_env (unwrapped_steps caught_raise_env) = None"
    by (simp add: unwrapped_steps_def caught_raise_env_def quiet_env_def listener_names_def)
  have f2: "first_raise end_raises_env (unwrapped_steps end_raises_env)
      = Some (VStr ''end failed'')"
    by (simp add: unwrapped_steps_def end_raises_env_def quiet_env_def listener_names_def)
  have a: "fst (finish caught_raise_env (Thrown (VStr ''boom'')) ?s) = Thrown (VStr ''boom'')"
    using teardown_steps_and_their_exceptions [of caught_raise_env ?s "Thrown (VStr ''boom'')",
        THEN conjunct2, THEN conjunct1]
    by (simp only: f1 option.case)
  have b: "fst (finish end_raises_env Done ?s') = Thrown (VStr ''end failed'')"
    using teardown_steps_and_their_exceptions [of end_raises_env ?s' Done,
        THEN conjunct2, THEN conjunct1]
    by (simp only: f2 option.case)
  have c1: "teardown_calls caught_raise_env [7]
     = [SourceUnpipe, SourceResume, BusboyOff ''close'', BusboyOff ''error'',
        BusboyOff ''field'', BusboyOff ''fieldsLimit'', BusboyOff ''file'',
        BusboyOff ''filesLimit'', BusboyOff ''partsLimit'', StreamOnceError 7,
        StreamResume 7, BusboyOnceError, BusboyEnd, BusboyDestroy]"
    by (simp add: teardown_calls_def stream_calls_def caught_raise_env_def quiet_env_def
          listener_names_def)
  have c2: "teardown_calls end_raises_env [7]
     = [SourceUnpipe, SourceResume, BusboyOff ''close'', BusboyOff ''error'',
        BusboyOff ''field'', BusboyOff ''fieldsLimit'', BusboyOff ''file'',
        BusboyOff ''filesLimit'', BusboyOff ''partsLimit'', StreamOnceError 7,
        StreamResume 7, StreamDestroy 7, BusboyOnceError, BusboyEnd]"
    by (simp add: teardown_calls_def stream_calls_def end_raises_env_def quiet_env_def
          listener_names_def)
  have d: "calls (snd (teardown caught_raise_env ?s))
      = calls ?s @ teardown_calls caught_raise_env [7]"
    using teardown_steps_and_their_exceptions [of caught_raise_env ?s Done,
        THEN conjunct2, THEN conjunct2, THEN conjunct1]
    by (simp only: y)
  show ?thesis
    by (intro conjI) (rule y thr a c1 d b c2)+
qed

text \<open>
  C6, as the claim states it, fails: removing listeners, and ending and destroying the
  producer, are outside any \<^verbatim>\<open>try\<close> block. When removing the \<^verbatim>\<open>close\<close> listener raises
  while the teardown runs after an error of the producer, the request raises the
  exception of the teardown instead of the producer's error, the yielded stream is not
  destroyed, and the producer is not destroyed.
\<close>

theorem uncaught_teardown_step_counterexample:
  "fst (run off_raises_env example_file_error_run (busboy None example_heap))
     = [Result Pending, Notified (Ev (FileEvent ''image'' 7 example_info)),
        Result (Yielded (FileEvent ''image'' 7 example_info)),
        Notified (ErrorInternalEvent (VStr ''boom'')),
        Result (Thrown (VStr ''off failed''))] \<and>
   yieldedFileStreams (snd (run off_raises_env example_file_error_run
     (busboy None example_heap))) = [7] \<and>
   StreamDestroy 7 \<notin> set (calls (snd (run off_raises_env example_file_error_run
     (busboy None example_heap)))) \<and>
   BusboyDestroy \<notin> set (calls (snd (run off_raises_env example_file_error_run
     (busboy None example_heap))))"
  by (simp add: model_defs off_raises_env_def example_file_error_run_def)

section \<open>The claim about the terminal event\<close>

text \<open>
  C3, as the code has it. When the event popped by the loop is the internal close event or
  the internal error event, the sequence ends there, whatever else the queue still holds
  behind it (also events the producer enqueued after the terminal one): the generator
  completes, and no run afterwards yields anything. How the request ends is decided once
  the teardown has run: if none of the unwrapped teardown steps raises (removing the seven
  listeners; \<^verbatim>\<open>once\<close>, \<^verbatim>\<open>end\<close> and \<^verbatim>\<open>destroy\<close> on a producer not destroyed yet), it ends
  normally for the close event and raises exactly the carried error value for the error
  event; otherwise it raises the exception of the first unwrapped step that raised.
\<close>

theorem terminal_event_ends_the_sequence:
  assumes "queue_inv (queue s)" and "items (queue s) = Some t # rest"
    and "t = CloseInternalEvent \<or> t = ErrorInternalEvent e"
  shows "status (snd (loop env s)) = Completed \<and>
         (\<forall>acts. yields (fst (run env acts (snd (loop env s)))) = [] \<and>
                 status (snd (run env acts (snd (loop env s)))) = Completed) \<and>
         fst (loop env s)
           = (case first_raise env (unwrapped_steps env) of
                None \<Rightarrow> (if t = CloseInternalEvent then Done else Thrown e)
              | Some x \<Rightarrow> Thrown x)"
proof -
  let ?s' = "s\<lparr>queue := snd (pop (queue s))\<rparr>"
  let ?r = "if t = CloseInternalEvent then Done else Thrown e"
  have l: "loop env s = finish env ?r ?s'"
    using assms(3) loop_close [OF assms(1), of rest env] loop_error [OF assms(1), of e rest env]
      assms(2) by auto
  have c: "status (snd (loop env s)) = Completed" using l finish_fields(1) by simp
  have q: "fst (loop env s)
           = (case first_raise env (unwrapped_steps env) of None \<Rightarrow> ?r | Some x \<Rightarrow> Thrown x)"
    using finish_exact(1) [of env ?r ?s'] l by simp
  show ?thesis using c q run_Completed [OF c] by blast
qed

theorem terminal_event_ends_the_sequence_witness:
  "queue_inv (queue (snd (run quiet_env example_error_run (busboy None example_heap)))) \<and>
   items (queue (snd (run quiet_env example_error_run (busboy None example_heap))))
     = [Some (ErrorInternalEvent (VStr ''boom'')), Some (Ev example_field)] \<and>
   first_raise quiet_env (unwrapped_steps quiet_env) = None \<and>
   fst (loop quiet_env (snd (run quiet_env example_error_run (busboy None example_heap))))
     = Thrown (VStr ''boom'') \<and>
   yields (fst (run quiet_env [Next, Wake, Next]
     (snd (loop quiet_env (snd (run quiet_env example_error_run (busboy None example_heap)))))))
     = []"
proof -
  let ?r = "run quiet_env example_error_run (busboy None example_heap)"
  let ?s = "snd ?r"
  have len: "length example_error_run \<le> MAX_SAFE_INTEGER"
    by (simp add: example_error_run_def MAX_SAFE_INTEGER_def)
  have obs: "fst ?r = [Result Pending, Notified (ErrorInternalEvent (VStr ''boom'')),
      Notified (Ev example_field)]"
    by (simp add: model_defs example_error_run_def)
  have st: "status ?s = Awaiting 0" by (simp add: model_defs example_error_run_def)
  have inv: "run_inv (yields (fst ?r)) (enqueued (fst ?r)) ?s"
    using run_run_inv [where ys="[]" and es="[]" and s="busboy None example_heap"
        and acts=example_error_run and env=quiet_env, OF run_inv_initial] len
    by simp
  have q: "queue_inv (queue ?s)"
    and its: "items (queue ?s) = Some (ErrorInternalEvent (VStr ''boom'')) # [Some (Ev example_field)]"
    using inv st unfolding obs by (simp_all add: run_inv_def live_def)
  have quiet: "first_raise quiet_env (unwrapped_steps quiet_env) = None"
    by (simp add: unwrapped_steps_def quiet_env_def listener_names_def)
  have tm: "ErrorInternalEvent (VStr ''boom'') = CloseInternalEvent \<or>
      ErrorInternalEvent (VStr ''boom'') = ErrorInternalEvent (VStr ''boom'')" by simp
  note t = terminal_event_ends_the_sequence [OF q its tm, of quiet_env]
  have a: "fst (loop quiet_env ?s) = Thrown (VStr ''boom'')"
    using t [THEN conjunct2, THEN conjunct2] by (simp only: quiet option.case) simp
  have b: "yields (fst (run quiet_env [Next, Wake, Next] (snd (loop quiet_env ?s)))) = []"
    using t [THEN conjunct2, THEN conjunct1, rule_format, of "[Next, Wake, Next]"]
    by (rule conjunct1)
  show ?thesis
    by (intro conjI) (rule q its quiet a b)+
qed

text \<open>
  C3, as the claim states it, fails: when \<^verbatim>\<open>end\<close> on the producer raises during the
  teardown, the request that pops the close event raises instead of ending normally, and
  the request that pops the error event carrying \<^verbatim>\<open>boom\<close> raises the exception of
  \<^verbatim>\<open>end\<close>, not \<^verbatim>\<open>boom\<close>.
\<close>

theorem terminal_outcome_replaced_counterexample:
  "fst (run end_raises_env [Next, Emit EmitClose, Wake] (busboy None example_heap))
     = [Result Pending, Notified CloseInternalEvent, Result (Thrown (VStr ''end failed''))] \<and>
   fst (run end_raises_env [Next, Emit (EmitError (VStr ''boom'')), Wake]
          (busboy None example_heap))
     = [Result Pending, Notified (ErrorInternalEvent (VStr ''boom'')),
        Result (Thrown (VStr ''end failed''))]"
  by (simp add: model_defs end_raises_env_def)

section \<open>The claim about the caller's configuration object\<close>

lemma run_unstarted:
  "status s = SuspendedStart \<Longrightarrow> attached s = [] \<Longrightarrow>
   heap (snd (run env acts s))
   = (if body_started acts then heap (delete_allowedFileNames s) else heap s)"
proof (induction acts arbitrary: s)
  case Nil
  show ?case by simp
next
  case (Cons a acts)
  show ?case
  proof (cases a)
    case Next
    have st: "step env Next s = (Result (fst (start env s)), snd (start env s))"
      using Cons.prems(1) by (simp add: split_beta)
    show ?thesis
      using run_started [OF start_status, of env acts env s] Next
      by (simp add: st split_beta start_heap del: step.simps)
  next
    case Return
    have st: "step env Return s = (Result Done, s\<lparr>status := Completed\<rparr>)"
      using Cons.prems(1) by simp
    have "status (s\<lparr>status := Completed\<rparr>) \<noteq> SuspendedStart" by simp
    from run_started [OF this, of env acts] show ?thesis using Return
      by (simp add: st split_beta del: step.simps)
  next
    case Wake
    have st: "step env Wake s = (Refused, s)" using Cons.prems(1) by simp
    show ?thesis using Cons.IH [OF Cons.prems] Wake
      by (simp add: st split_beta del: step.simps)
  next
    case (Emit e)
    have st: "step env (Emit e) s = (NoListener, s)" using Cons.prems(2) by simp
    show ?thesis using Cons.IH [OF Cons.prems] Emit
      by (simp add: st split_beta del: step.simps)
  qed
qed

text \<open>
  C10, as the code has it. The generator changes the object the caller passed as
  \<^verbatim>\<open>config\<close> when its body starts, which is at the first request of the consumer and not
  at the call. After any run in which the body has started, the caller's store holds at
  the address of that very object the object without its \<^verbatim>\<open>allowedFileNames\<close>
  property (no copy is made), and nothing else in the store has changed. After the call
  alone, and after any run in which the consumer abandons the generator before its first
  request, the store is unchanged, so the object still has the property.
\<close>

theorem config_object_mutated_when_body_starts:
  "heap (snd (run env acts (busboy (Some a) h)))
   = (if body_started acts then h(a := (h a)(''allowedFileNames'' := None)) else h)"
  using run_unstarted [of "busboy (Some a) h" env acts]
  by (simp add: busboy_def delete_allowedFileNames_def)

theorem config_object_mutated_when_body_starts_witness:
  "example_heap 1 ''allowedFileNames'' = Some (VStrs [''image'', ''document'']) \<and>
   body_started [Next, Emit EmitClose, Wake] \<and>
   heap (snd (run quiet_env [Next, Emit EmitClose, Wake] (busboy (Some 1) example_heap))) 1
     ''allowedFileNames'' = None \<and>
   heap (snd (run quiet_env [Next, Emit EmitClose, Wake] (busboy (Some 1) example_heap))) 1
     ''defCharset'' = Some (VStr ''latin1'')"
  using config_object_mutated_when_body_starts
    [of quiet_env "[Next, Emit EmitClose, Wake]" 1 example_heap]
  by (simp add: example_heap_def)

text \<open>
  C10, as the claim states it, fails: after the call the caller's object still has its
  \<^verbatim>\<open>allowedFileNames\<close> property, and it keeps it when the consumer abandons the
  generator without a request.
\<close>

theorem config_object_unchanged_by_the_call_counterexample:
  "heap (busboy (Some 1) example_heap) 1 ''allowedFileNames''
     = Some (VStrs [''image'', ''document'']) \<and>
   heap (snd (run quiet_env [Return] (busboy (Some 1) example_heap))) 1 ''allowedFileNames''
     = Some (VStrs [''image'', ''document''])"
  by (simp add: busboy_def example_heap_def)

end
